theory Spec2Isabelle
  imports Main "HOL-Library.Sublist"
begin

section \<open>Go strings, runes and the standard-library functions the pager uses\<close>

text \<open>
  A Go string is a sequence of bytes: it is modelled as \<open>string\<close> (a list of 8-bit
  characters), and \<open>byte c\<close> is the numeric value of one byte. A rune is a code point,
  modelled as a natural number.
\<close>

definition byte :: "char \<Rightarrow> nat" where
  "byte c = of_char c"

definition RuneError :: nat where
  "RuneError = 0xFFFD"

text \<open>
  \<open>utf8.DecodeRuneInString\<close>: the first rune of the string and its width in bytes.
  The empty string gives \<open>(RuneError, 0)\<close>, an invalid or short encoding gives
  \<open>(RuneError, 1)\<close>. The lead byte selects the width and the range accepted for the
  second byte (the tables \<open>first\<close> and \<open>acceptRanges\<close> of the Go library).
\<close>

definition DecodeRuneInString :: "string \<Rightarrow> nat \<times> nat" where
  "DecodeRuneInString s =
     (case s of
        [] \<Rightarrow> (RuneError, 0)
      | c0 # _ \<Rightarrow>
          let s0 = byte c0 in
          if s0 < 0x80 then (s0, 1)
          else if s0 < 0xC2 \<or> 0xF4 < s0 then (RuneError, 1)
          else
            let sz = (if s0 < 0xE0 then 2 else if s0 < 0xF0 then 3 else (4::nat));
                lo = (if s0 = 0xE0 then 0xA0 else if s0 = 0xF0 then 0x90 else 0x80);
                hi = (if s0 = 0xED then 0x9F else if s0 = 0xF4 then 0x8F else 0xBF)
            in
            if length s < sz then (RuneError, 1)
            else
              let s1 = byte (s ! 1) in
              if s1 < lo \<or> hi < s1 then (RuneError, 1)
              else if sz \<le> 2 then ((s0 mod 32) * 64 + s1 mod 64, 2)
              else
                let s2 = byte (s ! 2) in
                if s2 < 0x80 \<or> 0xBF < s2 then (RuneError, 1)
                else if sz \<le> 3 then ((s0 mod 16) * 4096 + (s1 mod 64) * 64 + s2 mod 64, 3)
                else
                  let s3 = byte (s ! 3) in
                  if s3 < 0x80 \<or> 0xBF < s3 then (RuneError, 1)
                  else ((s0 mod 8) * 262144 + (s1 mod 64) * 4096 + (s2 mod 64) * 64
                          + s3 mod 64, 4))"

text \<open>
  One rune as UTF-8, as the conversion \<open>string(r)\<close> writes it: surrogates and values
  above \<open>0x10FFFF\<close> are written as \<open>RuneError\<close>.
\<close>

definition encodeRune :: "nat \<Rightarrow> string" where
  "encodeRune r =
     (if r < 0x80 then [char_of r]
      else if r < 0x800 then [char_of (0xC0 + r div 64), char_of (0x80 + r mod 64)]
      else if (0xD800 \<le> r \<and> r \<le> 0xDFFF) \<or> 0x10FFFF < r then [CHR 0xEF, CHR 0xBF, CHR 0xBD]
      else if r < 0x10000 then
        [char_of (0xE0 + r div 4096), char_of (0x80 + (r div 64) mod 64),
         char_of (0x80 + r mod 64)]
      else
        [char_of (0xF0 + r div 262144), char_of (0x80 + (r div 4096) mod 64),
         char_of (0x80 + (r div 64) mod 64), char_of (0x80 + r mod 64)])"

text \<open>The conversion \<open>string(runes)\<close> of a rune slice.\<close>

definition stringOfRunes :: "nat list \<Rightarrow> string" where
  "stringOfRunes rs = concat (map encodeRune rs)"

text \<open>
  \<open>utf8.RuneCountInString\<close>: the number of runes, an erroneous or short encoding
  counting as one rune of width one byte.
\<close>

function RuneCountInString :: "string \<Rightarrow> nat" where
  "RuneCountInString s =
     (if s = [] then 0
      else Suc (RuneCountInString (drop (max 1 (snd (DecodeRuneInString s))) s)))"
  by pat_completeness auto
termination
  by (relation "measure length") auto

declare RuneCountInString.simps [simp del]

text \<open>
  \<open>strings.Index\<close>: the byte index of the first occurrence of \<open>sub\<close>, \<open>None\<close> where Go
  returns \<open>-1\<close>.
\<close>

fun Index :: "string \<Rightarrow> string \<Rightarrow> nat option" where
  "Index [] sub = (if sub = [] then Some 0 else None)"
| "Index (c # cs) sub =
     (if prefix sub (c # cs) then Some 0 else map_option Suc (Index cs sub))"

text \<open>\<open>unicode.IsSpace\<close>: the code points with the White_Space property.\<close>

definition IsSpace :: "nat \<Rightarrow> bool" where
  "IsSpace r =
     ((0x09 \<le> r \<and> r \<le> 0x0D) \<or> r = 0x20 \<or> r = 0x85 \<or> r = 0xA0 \<or> r = 0x1680
      \<or> (0x2000 \<le> r \<and> r \<le> 0x200A) \<or> r = 0x2028 \<or> r = 0x2029 \<or> r = 0x202F
      \<or> r = 0x205F \<or> r = 0x3000)"

text \<open>
  \<open>utf8.DecodeLastRuneInString\<close>: the last rune and its width. The library steps back
  over at most three bytes to the nearest byte that can start a rune, decodes from there,
  and reports \<open>(RuneError, 1)\<close> unless that rune ends exactly at the end of the string.
\<close>

definition RuneStart :: "char \<Rightarrow> bool" where
  "RuneStart c = (\<not> (0x80 \<le> byte c \<and> byte c < 0xC0))"

definition DecodeLastRuneInString :: "string \<Rightarrow> nat \<times> nat" where
  "DecodeLastRuneInString s =
     (let e = length s in
      if e = 0 then (RuneError, 0)
      else
        let r = byte (s ! (e - 1)) in
        if r < 0x80 then (r, 1)
        else
          let start =
                (if 2 \<le> e \<and> RuneStart (s ! (e - 2)) then e - 2
                 else if 3 \<le> e \<and> RuneStart (s ! (e - 3)) then e - 3
                 else if 4 \<le> e \<and> RuneStart (s ! (e - 4)) then e - 4
                 else e - 5);
              d = DecodeRuneInString (drop start s)
          in if start + snd d \<noteq> e then (RuneError, 1) else d)"

text \<open>
  \<open>strings.TrimSpace\<close>: leading white space is removed rune by rune from the front,
  trailing white space rune by rune from the back (the library's ASCII fast paths give
  the same result).
\<close>

function trimLeftSpace :: "string \<Rightarrow> string" where
  "trimLeftSpace s =
     (if s = [] then []
      else
        let d = DecodeRuneInString s in
        if IsSpace (fst d) then trimLeftSpace (drop (max 1 (snd d)) s) else s)"
  by pat_completeness auto
termination
  by (relation "measure length") auto

declare trimLeftSpace.simps [simp del]

function trimRightSpace :: "string \<Rightarrow> string" where
  "trimRightSpace s =
     (if s = [] then []
      else
        let d = DecodeLastRuneInString s in
        if IsSpace (fst d) then trimRightSpace (take (length s - max 1 (snd d)) s) else s)"
  by pat_completeness auto
termination
  by (relation "measure length") auto

declare trimRightSpace.simps [simp del]

definition TrimSpace :: "string \<Rightarrow> string" where
  "TrimSpace s = trimRightSpace (trimLeftSpace s)"

section \<open>More of the string library, and the platform\<close>

text \<open>\<open>strings.Contains\<close>, \<open>strings.HasPrefix\<close>, \<open>strings.HasSuffix\<close>.\<close>

definition Contains :: "string \<Rightarrow> string \<Rightarrow> bool" where
  "Contains s sub = (Index s sub \<noteq> None)"

definition HasPrefix :: "string \<Rightarrow> string \<Rightarrow> bool" where
  "HasPrefix s p = prefix p s"

definition HasSuffix :: "string \<Rightarrow> string \<Rightarrow> bool" where
  "HasSuffix s p = suffix p s"

text \<open>
  \<open>strings.Cut\<close>: the text before and after the first occurrence of the separator, and
  whether it was found.
\<close>

definition Cut :: "string \<Rightarrow> string \<Rightarrow> string \<times> string \<times> bool" where
  "Cut s sep =
     (case Index s sep of
        Some i \<Rightarrow> (take i s, drop (i + length sep) s, True)
      | None \<Rightarrow> (s, [], False))"

text \<open>
  \<open>strings.Trim\<close> for a cutset of ASCII characters (the pager only uses the cutset of
  the two angle brackets): every leading and every trailing byte that is in the cutset
  is removed.
\<close>

definition Trim :: "string \<Rightarrow> string \<Rightarrow> string" where
  "Trim s cutset =
     rev (dropWhile (\<lambda>c. c \<in> set cutset) (rev (dropWhile (\<lambda>c. c \<in> set cutset) s)))"

text \<open>
  The runes of a string as a \<open>range\<close> loop reads them: an invalid byte is read as
  \<open>RuneError\<close>.
\<close>

function runesOf :: "string \<Rightarrow> nat list" where
  "runesOf s =
     (if s = [] then []
      else
        let d = DecodeRuneInString s in
        fst d # runesOf (drop (max 1 (snd d)) s))"
  by pat_completeness auto
termination
  by (relation "measure length") auto

declare runesOf.simps [simp del]

text \<open>
  What the pager needs from the platform it runs on: the case table of Unicode beyond
  ASCII, the path functions of \<open>path/filepath\<close> (which differ between operating
  systems), the file system (\<open>filepath.Abs\<close>, \<open>filepath.EvalSymlinks\<close>, \<open>os.Stat\<close>), the
  markdown parser, and \<open>stripAbsolutePath\<close>, a function of the \<open>ui\<close> package defined in
  a file outside this development. The model takes them as the fields of a record.
\<close>

datatype fileMode = RegularFile | Directory | OtherFile

text \<open>
  The parse tree of the markdown parser, as far as the extractor looks at it: link nodes
  with their destination, text nodes with their segment of the source, and every other
  kind of node.
\<close>

datatype node =
    LinkNode string "node list"
  | TextNode string
  | OtherNode "node list"

record platform =
  unicodeToLower :: "nat \<Rightarrow> nat"
  pathSeparator :: char
  fpIsAbs :: "string \<Rightarrow> bool"
  fpDir :: "string \<Rightarrow> string"
  fpJoin :: "string \<Rightarrow> string \<Rightarrow> string"
  fpClean :: "string \<Rightarrow> string"
  fpAbs :: "string \<Rightarrow> string + string"
  fpEvalSymlinks :: "string \<Rightarrow> string option"
  fpRel :: "string \<Rightarrow> string \<Rightarrow> string option"
  osStat :: "string \<Rightarrow> fileMode option"
  parseMarkdown :: "string \<Rightarrow> node"
  stripAbsolutePath :: "string \<Rightarrow> string \<Rightarrow> string"

text \<open>
  \<open>strings.ToLower\<close>: a string of ASCII bytes is mapped byte by byte; any other string
  is read rune by rune, each rune mapped by \<open>unicode.ToLower\<close> and written back as
  UTF-8.
\<close>

definition asciiLower :: "char \<Rightarrow> char" where
  "asciiLower c = (if 0x41 \<le> byte c \<and> byte c \<le> 0x5A then char_of (byte c + 32) else c)"

definition runeToLower :: "platform \<Rightarrow> nat \<Rightarrow> nat" where
  "runeToLower pf r =
     (if r < 0x80 then (if 0x41 \<le> r \<and> r \<le> 0x5A then r + 32 else r)
      else unicodeToLower pf r)"

definition ToLower :: "platform \<Rightarrow> string \<Rightarrow> string" where
  "ToLower pf s =
     (if list_all (\<lambda>c. byte c < 0x80) s then map asciiLower s
      else stringOfRunes (map (runeToLower pf) (runesOf s)))"

text \<open>
  \<open>url.PathUnescape\<close>: every \<open>%XY\<close> with two hexadecimal digits becomes the byte
  \<open>0xXY\<close>; a percent sign that is not followed by two hexadecimal digits is an error
  (\<open>None\<close>). A plus sign is left alone in this mode.
\<close>

definition ishex :: "char \<Rightarrow> bool" where
  "ishex c =
     ((0x30 \<le> byte c \<and> byte c \<le> 0x39) \<or> (0x61 \<le> byte c \<and> byte c \<le> 0x66)
      \<or> (0x41 \<le> byte c \<and> byte c \<le> 0x46))"

definition unhex :: "char \<Rightarrow> nat" where
  "unhex c =
     (if 0x30 \<le> byte c \<and> byte c \<le> 0x39 then byte c - 0x30
      else if 0x61 \<le> byte c \<and> byte c \<le> 0x66 then byte c - 0x61 + 10
      else if 0x41 \<le> byte c \<and> byte c \<le> 0x46 then byte c - 0x41 + 10
      else 0)"

fun wellEscaped :: "string \<Rightarrow> bool" where
  "wellEscaped [] = True"
| "wellEscaped (c # cs) =
     (if c = CHR ''%'' then
        (case cs of
           a # b # rest \<Rightarrow> ishex a \<and> ishex b \<and> wellEscaped rest
         | _ \<Rightarrow> False)
      else wellEscaped cs)"

fun unescaped :: "string \<Rightarrow> string" where
  "unescaped [] = []"
| "unescaped (c # cs) =
     (if c = CHR ''%'' then
        (case cs of
           a # b # rest \<Rightarrow> char_of (unhex a * 16 + unhex b) # unescaped rest
         | _ \<Rightarrow> c # cs)
      else c # unescaped cs)"

definition PathUnescape :: "string \<Rightarrow> string option" where
  "PathUnescape s = (if wellEscaped s then Some (unescaped s) else None)"

section \<open>The highlighter (ui/pager\_highlight.go)\<close>

record followableLink =
  Href :: string
  Path :: string
  Fragment :: string
  Label :: string
  ResolvedPath :: string
  ResolvedNote :: string

text \<open>
  The inner loop of \<open>printableRunesAndOffsets\<close>: from index \<open>i\<close>, consume bytes up to
  and including the first one in \<open>0x40..0x7E\<close>, or to the end of the string.
\<close>

function skipEscape :: "string \<Rightarrow> nat \<Rightarrow> nat" where
  "skipEscape s i =
     (if i < length s then
        (let c = byte (s ! i) in
         if 0x40 \<le> c \<and> c \<le> 0x7E then i + 1 else skipEscape s (i + 1))
      else i)"
  by pat_completeness auto
termination
  by (relation "measure (\<lambda>(s, i). length s - i)") auto

declare skipEscape.simps [simp del]

lemma skipEscape_ge: "i \<le> skipEscape s i"
proof (induction s i rule: skipEscape.induct)
  case (1 s i)
  show ?case
  proof (cases "i < length s")
    case True
    then show ?thesis
      using 1 by (subst skipEscape.simps) (auto simp: Let_def intro: Suc_leD)
  next
    case False
    then show ?thesis by (subst skipEscape.simps) simp
  qed
qed

lemma skipEscape_le: "i \<le> length s \<Longrightarrow> skipEscape s i \<le> length s"
proof (induction s i rule: skipEscape.induct)
  case (1 s i)
  show ?case
  proof (cases "i < length s")
    case True
    then show ?thesis
      using 1 by (subst skipEscape.simps) (auto simp: Let_def)
  next
    case False
    then show ?thesis using 1 by (subst skipEscape.simps) simp
  qed
qed

text \<open>Does an escape sequence (\<open>ESC\<close> followed by an opening bracket) start at \<open>i\<close>?\<close>

definition escapeAt :: "string \<Rightarrow> nat \<Rightarrow> bool" where
  "escapeAt s i = (byte (s ! i) = 0x1B \<and> i + 1 < length s \<and> s ! (i + 1) = CHR ''['')"

text \<open>
  The rune the scanner records at a printable position: the decoded rune, or the raw
  byte where decoding fails; and the number of bytes it covers.
\<close>

definition printableRuneAt :: "string \<Rightarrow> nat \<Rightarrow> nat \<times> nat" where
  "printableRuneAt s i =
     (let d = DecodeRuneInString (drop i s) in
      if fst d = RuneError \<and> snd d = 1 then (byte (s ! i), 1) else d)"

lemma DecodeRuneInString_size_pos: "s \<noteq> [] \<Longrightarrow> 0 < snd (DecodeRuneInString s)"
  by (cases s) (auto simp: DecodeRuneInString_def Let_def)

lemma DecodeRuneInString_size_le: "snd (DecodeRuneInString s) \<le> length s"
  by (cases s) (auto simp: DecodeRuneInString_def Let_def Suc_le_eq)

lemma printableRuneAt_size_pos: "i < length s \<Longrightarrow> 0 < snd (printableRuneAt s i)"
  using DecodeRuneInString_size_pos [of "drop i s"]
  by (auto simp: printableRuneAt_def Let_def)

lemma printableRuneAt_size_le: "i < length s \<Longrightarrow> i + snd (printableRuneAt s i) \<le> length s"
  using DecodeRuneInString_size_le [of "drop i s"]
  by (auto simp: printableRuneAt_def Let_def)

text \<open>
  The outer loop of \<open>printableRunesAndOffsets\<close>, from index \<open>i\<close>, with the two slices
  built so far; the sentinel \<open>len(s)\<close> is appended when the loop ends.
\<close>

function scanFrom :: "string \<Rightarrow> nat \<Rightarrow> nat list \<Rightarrow> nat list \<Rightarrow> nat list \<times> nat list" where
  "scanFrom s i runes offsets =
     (if i < length s then
        (if escapeAt s i then scanFrom s (skipEscape s (i + 2)) runes offsets
         else
           let d = printableRuneAt s i in
           scanFrom s (i + snd d) (runes @ [fst d]) (offsets @ [i]))
      else (runes, offsets @ [length s]))"
  by pat_completeness auto
termination
proof (relation "measure (\<lambda>(s, i, runes, offsets). length s - i)", goal_cases)
  case 1
  show ?case by simp
next
  case (2 s i runes offsets)
  have "i + 2 \<le> skipEscape s (i + 2)" by (rule skipEscape_ge)
  with 2 show ?case by simp
next
  case (3 s i runes offsets x)
  with printableRuneAt_size_pos [of i s] show ?case by simp
qed

declare scanFrom.simps [simp del]

definition printableRunesAndOffsets :: "string \<Rightarrow> nat list \<times> nat list" where
  "printableRunesAndOffsets s = scanFrom s 0 [] []"

text \<open>The local type \<open>span\<close> of \<open>highlightFocusedLink\<close>; its zero value is \<open>noSpan\<close>.\<close>

record span =
  spanStart :: nat
  spanEnd :: nat
  spanOk :: bool

definition noSpan :: span where
  "noSpan = \<lparr>spanStart = 0, spanEnd = 0, spanOk = False\<rparr>"

text \<open>
  The loop over the links: \<open>searchFrom\<close> is threaded through, and every link gets its
  entry of \<open>spans\<close>. Indices are natural numbers, so the source's tests
  \<open>startRune < 0\<close> and \<open>startByte < 0\<close> can never succeed and are not written.
\<close>

fun linkSpans :: "string \<Rightarrow> nat list \<Rightarrow> nat \<Rightarrow> nat \<Rightarrow> followableLink list \<Rightarrow> span list" where
  "linkSpans printableStr offsets n searchFrom [] = []"
| "linkSpans printableStr offsets n searchFrom (l # ls) =
     (let label = TrimSpace (Label l) in
      if label = [] \<or> length printableStr \<le> searchFrom then
        noSpan # linkSpans printableStr offsets n searchFrom ls
      else
        (case Index (drop searchFrom printableStr) label of
           None \<Rightarrow> noSpan # linkSpans printableStr offsets n searchFrom ls
         | Some relIdx \<Rightarrow>
             let byteIdx = searchFrom + relIdx;
                 searchFrom' = byteIdx + length label;
                 startRune = RuneCountInString (take byteIdx printableStr);
                 endRune = startRune + RuneCountInString label
             in
             if length offsets < endRune + 1 then
               noSpan # linkSpans printableStr offsets n searchFrom' ls
             else
               let startByte = offsets ! startRune;
                   endByte = offsets ! endRune
               in
               if endByte < startByte \<or> n < endByte then
                 noSpan # linkSpans printableStr offsets n searchFrom' ls
               else
                 \<lparr>spanStart = startByte, spanEnd = endByte, spanOk = True\<rparr>
                   # linkSpans printableStr offsets n searchFrom' ls))"

definition reverseOn :: string where
  "reverseOn = [CHR 0x1B, CHR ''['', CHR ''7'', CHR ''m'']"

definition reverseOff :: string where
  "reverseOff = [CHR 0x1B, CHR ''['', CHR ''2'', CHR ''7'', CHR ''m'']"

text \<open>The text with the two markers written around the byte range of a span.\<close>

definition wrapSpan :: "string \<Rightarrow> nat \<Rightarrow> nat \<Rightarrow> string" where
  "wrapSpan rendered a b =
     take a rendered @ reverseOn @ drop a (take b rendered) @ reverseOff @ drop b rendered"

definition highlightFocusedLink :: "string \<Rightarrow> followableLink list \<Rightarrow> int \<Rightarrow> string" where
  "highlightFocusedLink rendered links focused =
     (if focused < 0 \<or> int (length links) \<le> focused then rendered
      else
        let (printable, offsets) = printableRunesAndOffsets rendered in
        if printable = [] then rendered
        else
          let printableStr = stringOfRunes printable;
              spans = linkSpans printableStr offsets (length rendered) 0 links;
              s = spans ! nat focused
          in if \<not> spanOk s then rendered else wrapSpan rendered (spanStart s) (spanEnd s))"

section \<open>Followable links (ui/pager\_links.go)\<close>

record rawLink =
  href :: string
  label :: string

datatype error = AbsRootDir string | AbsResolvedPath string

definition splitFragment :: "string \<Rightarrow> string \<times> string" where
  "splitFragment h =
     (case Cut h ''#'' of
        (path, frag, ok) \<Rightarrow> if ok then (path, frag) else (h, []))"

definition isAbsoluteOrUNCPath :: "platform \<Rightarrow> string \<Rightarrow> bool" where
  "isAbsoluteOrUNCPath pf path =
     (if HasPrefix path ''/'' then True
      else if HasPrefix path [CHR 0x5C, CHR 0x5C] then True
      else if 2 \<le> length path
              \<and> ((0x61 \<le> byte (path ! 0) \<and> byte (path ! 0) \<le> 0x7A)
                   \<or> (0x41 \<le> byte (path ! 0) \<and> byte (path ! 0) \<le> 0x5A))
              \<and> path ! 1 = CHR '':'' then True
      else fpIsAbs pf path)"

definition isFollowableHref :: "platform \<Rightarrow> string \<Rightarrow> bool" where
  "isFollowableHref pf h0 =
     (let h = TrimSpace h0;
          h = Trim h ''<>'';
          hrefLower = ToLower pf h
      in
      if Contains h ''://'' \<or> HasPrefix hrefLower ''mailto:'' then False
      else
        let path = fst (splitFragment h) in
        if isAbsoluteOrUNCPath pf path then False
        else
          let pathLower = ToLower pf path in
          HasSuffix pathLower ''.md'' \<or> HasSuffix pathLower ''.markdown'')"

text \<open>
  The text of a link: the segments of the text nodes below it, in order. The walk visits
  the link node itself first, which is not a text node.
\<close>

fun textOf :: "node \<Rightarrow> string" where
  "textOf (TextNode s) = s"
| "textOf (LinkNode d cs) = concat (map textOf cs)"
| "textOf (OtherNode cs) = concat (map textOf cs)"

text \<open>
  The outer walk, in document order: a link node with a non-empty destination gives
  a raw link, and the walk goes on into its children.
\<close>

fun extractNode :: "node \<Rightarrow> rawLink list" where
  "extractNode (TextNode s) = []"
| "extractNode (OtherNode cs) = concat (map extractNode cs)"
| "extractNode (LinkNode d cs) =
     (let h = TrimSpace d in
      if h = [] then []
      else [\<lparr>href = h, label = TrimSpace (concat (map textOf cs))\<rparr>])
     @ concat (map extractNode cs)"

definition extractRawLinks :: "platform \<Rightarrow> string \<Rightarrow> rawLink list" where
  "extractRawLinks pf markdown = extractNode (parseMarkdown pf markdown)"

text \<open>
  \<open>resolveFollowableLink\<close>, from the line that takes the directory of the current file
  on: the path has been decoded, and what follows joins, cleans, makes absolute,
  evaluates symbolic links, and checks containment and the file itself. \<open>Inl\<close> is an
  error, \<open>Inr None\<close> the result \<open>ok = false\<close> without error, \<open>Inr (Some l)\<close> the link
  with \<open>ok = true\<close>.
\<close>

definition resolvePath ::
  "platform \<Rightarrow> string \<Rightarrow> string \<Rightarrow> string \<Rightarrow> string \<Rightarrow> string
     \<Rightarrow> error + followableLink option" where
  "resolvePath pf rootDir currentFilePath h path frag =
     (let base = fpDir pf currentFilePath;
          resolved = fpClean pf (fpJoin pf base path)
      in
      case fpAbs pf rootDir of
        Inl e \<Rightarrow> Inl (AbsRootDir e)
      | Inr rootAbs0 \<Rightarrow>
          (case fpAbs pf resolved of
             Inl e \<Rightarrow> Inl (AbsResolvedPath e)
           | Inr resAbs0 \<Rightarrow>
               let rootAbs = (case fpEvalSymlinks pf rootAbs0 of
                                Some rootEval \<Rightarrow> rootEval | None \<Rightarrow> rootAbs0);
                   resAbs = (case fpEvalSymlinks pf resAbs0 of
                               Some resEval \<Rightarrow> resEval | None \<Rightarrow> resAbs0)
               in
               (case fpRel pf rootAbs resAbs of
                  None \<Rightarrow> Inr None
                | Some rel \<Rightarrow>
                    if rel = ''..'' \<or> HasPrefix rel (''..'' @ [pathSeparator pf])
                    then Inr None
                    else
                      (case osStat pf resAbs of
                         None \<Rightarrow> Inr None
                       | Some info \<Rightarrow>
                           if info \<noteq> RegularFile then Inr None
                           else Inr (Some \<lparr>Href = h, Path = path, Fragment = frag,
                                  Label = [], ResolvedPath = resAbs,
                                  ResolvedNote = stripAbsolutePath pf resAbs rootAbs\<rparr>)))))"

definition resolveFollowableLink ::
  "platform \<Rightarrow> string \<Rightarrow> string \<Rightarrow> string \<Rightarrow> error + followableLink option" where
  "resolveFollowableLink pf rootDir currentFilePath h0 =
     (let h = TrimSpace h0;
          h = Trim h ''<>''
      in
      if \<not> isFollowableHref pf h then Inr None
      else
        let (path, frag) = splitFragment h;
            path = TrimSpace path
        in
        if path = [] then Inr None
        else
          let path = (if Contains path ''%'' then
                        (case PathUnescape path of
                           Some decoded \<Rightarrow> decoded
                         | None \<Rightarrow> path)
                      else path)
          in resolvePath pf rootDir currentFilePath h path frag)"

text \<open>The loop of \<open>followableLinksForDocument\<close>, with the slice \<open>out\<close> built so far.\<close>

fun resolveLinks ::
  "platform \<Rightarrow> string \<Rightarrow> string \<Rightarrow> rawLink list \<Rightarrow> followableLink list
     \<Rightarrow> error + followableLink list" where
  "resolveLinks pf rootDir currentFilePath [] out = Inr out"
| "resolveLinks pf rootDir currentFilePath (l # raw) out =
     (case resolveFollowableLink pf rootDir currentFilePath (href l) of
        Inl err \<Rightarrow> Inl err
      | Inr None \<Rightarrow> resolveLinks pf rootDir currentFilePath raw out
      | Inr (Some link) \<Rightarrow>
          if TrimSpace (label l) = [] then resolveLinks pf rootDir currentFilePath raw out
          else resolveLinks pf rootDir currentFilePath raw (out @ [link\<lparr>Label := label l\<rparr>]))"

definition followableLinksForDocument ::
  "platform \<Rightarrow> string \<Rightarrow> string \<Rightarrow> string \<Rightarrow> error + followableLink list" where
  "followableLinksForDocument pf rootDir currentFilePath markdown =
     resolveLinks pf rootDir currentFilePath (extractRawLinks pf markdown) []"

section \<open>Machine integers and panics\<close>

text \<open>
  Go's \<open>int\<close> is a machine integer, of 64 bits here. \<open>wrapInt\<close> is the value an addition
  or a subtraction leaves, and \<open>goRem\<close> is the remainder \<open>%\<close>, which takes the sign of the
  dividend. A call that reads through a nil pointer, indexes a slice out of range or
  slices it with bounds out of order panics.
\<close>

definition wrapInt :: "int \<Rightarrow> int" where
  "wrapInt x = (x + 2 ^ 63) mod 2 ^ 64 - 2 ^ 63"

definition goRem :: "int \<Rightarrow> int \<Rightarrow> int" where
  "goRem a b = sgn a * (\<bar>a\<bar> mod \<bar>b\<bar>)"

datatype panic = NilPointer | IndexOutOfRange | SliceBoundsOutOfRange

text \<open>A panic ends the call; otherwise the call goes on with the value.\<close>

definition andThen :: "panic + 'a \<Rightarrow> ('a \<Rightarrow> panic + 'b) \<Rightarrow> panic + 'b" where
  "andThen r f = (case r of Inl p \<Rightarrow> Inl p | Inr x \<Rightarrow> f x)"

section \<open>The viewport of the pager\<close>

text \<open>
  The scrolling widget is a library type of which the pager reads and writes the fields
  \<open>Height\<close> and \<open>YOffset\<close> and calls a few methods. They are modelled here as the library
  defines them, for a viewport without a frame: the largest offset is the number of lines
  beyond one screen, \<open>SetYOffset\<close> clamps to it, and \<open>SetContent\<close> splits the text into
  lines and goes to the bottom when the offset is beyond the last line. \<open>GotoTop\<close> and
  \<open>GotoBottom\<close> return the lines on the screen, the slice \<open>lines[top:bottom]\<close> that
  \<open>visibleLines\<close> cuts out; the pager drops them, but cutting them panics when \<open>bottom\<close>
  is less than \<open>top\<close>.
\<close>

record viewportModel =
  Width :: int
  Height :: int
  YOffset :: int
  lines :: "string list"

definition clamp :: "int \<Rightarrow> int \<Rightarrow> int \<Rightarrow> int" where
  "clamp v low high =
     (if high < low then min low (max high v) else min high (max low v))"

definition maxYOffset :: "viewportModel \<Rightarrow> int" where
  "maxYOffset v = max 0 (wrapInt (int (length (lines v)) - Height v))"

definition AtTop :: "viewportModel \<Rightarrow> bool" where
  "AtTop v = (YOffset v \<le> 0)"

definition PastBottom :: "viewportModel \<Rightarrow> bool" where
  "PastBottom v = (maxYOffset v < YOffset v)"

definition SetYOffset :: "int \<Rightarrow> viewportModel \<Rightarrow> viewportModel" where
  "SetYOffset n v = v\<lparr>YOffset := clamp n 0 (maxYOffset v)\<rparr>"

definition visibleLines :: "viewportModel \<Rightarrow> panic + string list" where
  "visibleLines v =
     (if lines v = [] then Inr []
      else
        let top = max 0 (YOffset v);
            bottom = clamp (wrapInt (YOffset v + Height v)) top (int (length (lines v)))
        in if bottom < top \<or> int (length (lines v)) < bottom then Inl SliceBoundsOutOfRange
           else Inr (take (nat (bottom - top)) (drop (nat top) (lines v))))"

definition GotoTop :: "viewportModel \<Rightarrow> panic + viewportModel" where
  "GotoTop v =
     (if AtTop v then Inr v
      else
        let v = SetYOffset 0 v in
        andThen (visibleLines v) (\<lambda>ls. Inr v))"

definition GotoBottom :: "viewportModel \<Rightarrow> panic + viewportModel" where
  "GotoBottom v =
     (let v = SetYOffset (maxYOffset v) v in
      andThen (visibleLines v) (\<lambda>ls. Inr v))"

text \<open>The lines of a text: it is cut at every line feed, a carriage return before it dropped.\<close>

fun splitLines :: "string \<Rightarrow> string list" where
  "splitLines [] = [[]]"
| "splitLines (c # cs) =
     (if c = CHR 0x0A then [] # splitLines cs
      else if c = CHR 0x0D \<and> cs \<noteq> [] \<and> hd cs = CHR 0x0A then [] # splitLines (tl cs)
      else (case splitLines cs of
              w # ws \<Rightarrow> (c # w) # ws
            | [] \<Rightarrow> [[c]]))"

definition SetContent :: "string \<Rightarrow> viewportModel \<Rightarrow> panic + viewportModel" where
  "SetContent s v =
     (let v = v\<lparr>lines := splitLines s\<rparr> in
      if int (length (lines v)) - 1 < YOffset v then GotoBottom v else Inr v)"

section \<open>The pager (ui/pager.go)\<close>

text \<open>
  The state of the pager, as far as following links and going back use it. The timer of
  the status message and the watcher of the file system are left out, and with them the
  commands that wait for them. The pointer \<open>common\<close> may be nil.
\<close>

datatype pagerState = pagerStateBrowse | pagerStateStatusMessage

record navEntry =
  NavPath :: string
  NavYOffset :: int

record markdown =
  localPath :: string
  Note :: string
  Body :: string

record commonModel =
  cwd :: string
  HighPerformancePager :: bool

record pagerModel =
  common :: "commonModel option"
  viewport :: viewportModel
  state :: pagerState
  statusMessage :: string
  currentDocument :: markdown
  rendered :: string
  links :: "followableLink list"
  focusedLink :: int
  history :: "navEntry list"
  pendingRestoreYOffset :: "int option"

text \<open>
  The messages the model covers: the keys that cycle the focus, follow a link and go
  back, and the messages that report an error, the rendered content, and the end of a
  status message. The viewport's own \<open>Update\<close> has no binding for these keys and ignores
  these messages, so the last step of \<open>update\<close> leaves the viewport as it is.
\<close>

datatype msg =
    KeyTab
  | KeyShiftTab
  | KeyEnter
  | KeyBackspace
  | ErrMsg string
  | ContentRenderedMsg string
  | StatusMessageTimeoutMsg

datatype cmd =
    LoadLocalMarkdown markdown
  | WaitForStatusMessageTimeout
  | ViewportSync

definition setContent :: "pagerModel \<Rightarrow> string \<Rightarrow> panic + pagerModel" where
  "setContent m s =
     andThen (SetContent s (viewport m)) (\<lambda>v. Inr (m\<lparr>viewport := v\<rparr>))"

definition applyRenderedContent :: "pagerModel \<Rightarrow> panic + pagerModel" where
  "applyRenderedContent m =
     (let content = rendered m;
          content = (if 0 \<le> focusedLink m
                     then highlightFocusedLink content (links m) (focusedLink m)
                     else content)
      in setContent m content)"

definition showStatusMessage :: "pagerModel \<Rightarrow> string \<Rightarrow> pagerModel \<times> cmd" where
  "showStatusMessage m message =
     (m\<lparr>state := pagerStateStatusMessage, statusMessage := message\<rparr>,
      WaitForStatusMessageTimeout)"

text \<open>
  \<open>followFocusedLink\<close> and \<open>goBack\<close> return the new state and the command, \<open>None\<close> for
  the nil command. Reading \<open>links\<close> out of range and reading through a nil \<open>common\<close>
  panic.
\<close>

definition followFocusedLink :: "pagerModel \<Rightarrow> panic + pagerModel \<times> cmd option" where
  "followFocusedLink m =
     (if focusedLink m < 0 \<or> int (length (links m)) \<le> focusedLink m then Inl IndexOutOfRange
      else
        let l = links m ! nat (focusedLink m) in
        if ResolvedPath l = [] then Inr (m, None)
        else
          let m = (if localPath (currentDocument m) \<noteq> []
                   then m\<lparr>history := history m @
                          [\<lparr>NavPath = localPath (currentDocument m),
                            NavYOffset = YOffset (viewport m)\<rparr>]\<rparr>
                   else m);
              m = m\<lparr>focusedLink := - 1\<rparr>
          in
          andThen (GotoTop (viewport m)) (\<lambda>v.
            let m = m\<lparr>viewport := v\<rparr>;
                m = m\<lparr>pendingRestoreYOffset := None\<rparr>
            in Inr (m, Some (LoadLocalMarkdown
                   \<lparr>localPath = ResolvedPath l, Note = ResolvedNote l, Body = []\<rparr>))))"

definition goBack :: "platform \<Rightarrow> pagerModel \<Rightarrow> panic + pagerModel \<times> cmd option" where
  "goBack pf m =
     (if history m = [] then Inr (m, None)
      else
        let e = last (history m);
            m = m\<lparr>history := butlast (history m)\<rparr>;
            m = m\<lparr>focusedLink := - 1\<rparr>;
            m = m\<lparr>pendingRestoreYOffset := Some (NavYOffset e)\<rparr>
        in
        andThen (GotoTop (viewport m)) (\<lambda>v.
          let m = m\<lparr>viewport := v\<rparr> in
          case common m of
            None \<Rightarrow> Inl NilPointer
          | Some c \<Rightarrow>
              Inr (m, Some (LoadLocalMarkdown
                 \<lparr>localPath = NavPath e, Note = stripAbsolutePath pf (NavPath e) (cwd c),
                  Body = []\<rparr>))))"

text \<open>The commands of a batch: the nil commands are dropped.\<close>

definition batch :: "cmd option list \<Rightarrow> cmd list" where
  "batch cs = concat (map (\<lambda>c. case c of None \<Rightarrow> [] | Some x \<Rightarrow> [x]) cs)"

definition update :: "platform \<Rightarrow> pagerModel \<Rightarrow> msg \<Rightarrow> panic + pagerModel \<times> cmd list" where
  "update pf m ms =
     (case ms of
        KeyTab \<Rightarrow>
          if links m = [] then
            (case showStatusMessage m ''No followable links'' of
               (m, c) \<Rightarrow> Inr (m, batch [Some c, None]))
          else
            let m = (if focusedLink m < 0 then m\<lparr>focusedLink := 0\<rparr>
                     else m\<lparr>focusedLink := goRem (wrapInt (focusedLink m + 1))
                                               (int (length (links m)))\<rparr>)
            in
            andThen (applyRenderedContent m) (\<lambda>m.
              if focusedLink m < 0 \<or> int (length (links m)) \<le> focusedLink m
              then Inl IndexOutOfRange
              else
                (case showStatusMessage m
                        (''Open: '' @ ResolvedNote (links m ! nat (focusedLink m))) of
                   (m, c) \<Rightarrow> Inr (m, batch [Some c, None])))
      | KeyShiftTab \<Rightarrow>
          if links m = [] then
            (case showStatusMessage m ''No followable links'' of
               (m, c) \<Rightarrow> Inr (m, batch [Some c, None]))
          else
            let m = (if focusedLink m < 0 then m\<lparr>focusedLink := int (length (links m)) - 1\<rparr>
                     else
                       let m = m\<lparr>focusedLink := focusedLink m - 1\<rparr> in
                       if focusedLink m < 0 then m\<lparr>focusedLink := int (length (links m)) - 1\<rparr>
                       else m)
            in
            andThen (applyRenderedContent m) (\<lambda>m.
              if int (length (links m)) \<le> focusedLink m then Inl IndexOutOfRange
              else
                (case showStatusMessage m
                        (''Open: '' @ ResolvedNote (links m ! nat (focusedLink m))) of
                   (m, c) \<Rightarrow> Inr (m, batch [Some c, None])))
      | KeyEnter \<Rightarrow>
          if 0 \<le> focusedLink m \<and> focusedLink m < int (length (links m)) then
            (case followFocusedLink m of
               Inl p \<Rightarrow> Inl p
             | Inr (m, c) \<Rightarrow> Inr (m, batch [c]))
          else if links m \<noteq> [] then
            (case showStatusMessage m ''Tab to select a link'' of
               (m, c) \<Rightarrow> Inr (m, batch [Some c, None]))
          else Inr (m, batch [None])
      | KeyBackspace \<Rightarrow>
          if history m \<noteq> [] then
            (case goBack pf m of
               Inl p \<Rightarrow> Inl p
             | Inr (m, c) \<Rightarrow> Inr (m, batch [c]))
          else Inr (m, batch [None])
      | ErrMsg e \<Rightarrow>
          (case showStatusMessage (m\<lparr>pendingRestoreYOffset := None\<rparr>) e of
             (m, c) \<Rightarrow> Inr (m, batch [Some c, None]))
      | ContentRenderedMsg s \<Rightarrow>
          andThen (applyRenderedContent (m\<lparr>rendered := s\<rparr>)) (\<lambda>m.
          andThen (case pendingRestoreYOffset m of
                     None \<Rightarrow> Inr m
                   | Some y \<Rightarrow>
                       let m = m\<lparr>viewport := (viewport m)\<lparr>YOffset := y\<rparr>\<rparr> in
                       andThen (if PastBottom (viewport m) then GotoBottom (viewport m)
                                else Inr (viewport m)) (\<lambda>v.
                         Inr (m\<lparr>viewport := v, pendingRestoreYOffset := None\<rparr>))) (\<lambda>m.
          Inr (m, batch [case common m of
                           None \<Rightarrow> None
                         | Some c \<Rightarrow> if HighPerformancePager c then Some ViewportSync else None,
                         None])))
      | StatusMessageTimeoutMsg \<Rightarrow> Inr (m\<lparr>state := pagerStateBrowse\<rparr>, batch [None]))"

text \<open>The event loop hands the messages to \<open>update\<close> one after the other.\<close>

fun run :: "platform \<Rightarrow> pagerModel \<Rightarrow> msg list \<Rightarrow> panic + pagerModel" where
  "run pf m [] = Inr m"
| "run pf m (ms # mss) =
     (case update pf m ms of
        Inl p \<Rightarrow> Inl p
      | Inr (m', cs) \<Rightarrow> run pf m' mss)"

section \<open>The highlighter leaves the text alone when no link is focused\<close>

text \<open>
  Claim C5. For every rendered text and registry, a focused index outside
  \<open>[0, len(registry))\<close>, in particular \<open>-1\<close>, makes \<open>highlightFocusedLink\<close> return its
  input unchanged, byte for byte.
\<close>

theorem highlight_out_of_range_unchanged:
  "focused < 0 \<or> int (length reg) \<le> focused \<Longrightarrow>
     highlightFocusedLink rtext reg focused = rtext"
  by (simp add: highlightFocusedLink_def)

theorem highlight_out_of_range_unchanged_witness:
  "((-1::int) < 0 \<or> int (length [\<lparr>Href = ''a.md'', Path = ''a.md'', Fragment = [],
        Label = ''here'', ResolvedPath = ''/r/a.md'', ResolvedNote = ''a.md''\<rparr>]) \<le> -1)
   \<and> highlightFocusedLink (CHR 0x1B # ''[31mhere'')
         [\<lparr>Href = ''a.md'', Path = ''a.md'', Fragment = [], Label = ''here'',
           ResolvedPath = ''/r/a.md'', ResolvedNote = ''a.md''\<rparr>] (-1)
       = CHR 0x1B # ''[31mhere''"
  using highlight_out_of_range_unchanged
    [of "-1" "[\<lparr>Href = ''a.md'', Path = ''a.md'', Fragment = [], Label = ''here'',
           ResolvedPath = ''/r/a.md'', ResolvedNote = ''a.md''\<rparr>]" "CHR 0x1B # ''[31mhere''"]
  by simp

section \<open>The offset table of the scanner\<close>

text \<open>
  What the scanner records at one position: the offset lies inside the text, no escape
  sequence starts there, and the rune is the one read at that offset.
\<close>

definition printableAt :: "string \<Rightarrow> nat \<Rightarrow> nat \<Rightarrow> bool" where
  "printableAt s r off = (off < length s \<and> \<not> escapeAt s off \<and> r = fst (printableRuneAt s off))"

lemma scanFrom_table:
  "scanFrom s i rs os = (Rs, Os) \<Longrightarrow> length os = length rs \<Longrightarrow> i \<le> length s \<Longrightarrow>
   (\<forall>x \<in> set os. x < i) \<Longrightarrow> sorted_wrt (<) os \<Longrightarrow>
   (\<forall>k < length rs. printableAt s (rs ! k) (os ! k)) \<Longrightarrow>
   length Os = length Rs + 1 \<and> sorted_wrt (<) Os \<and> last Os = length s \<and>
   (\<forall>k < length Rs. printableAt s (Rs ! k) (Os ! k))"
proof (induction s i rs os rule: scanFrom.induct)
  case (1 s i runes offsets)
  show ?case
  proof (cases "i < length s")
    case False
    with "1.prems" have eq: "Rs = runes" "Os = offsets @ [length s]" "i = length s"
      by (simp_all add: scanFrom.simps)
    show ?thesis using "1.prems" eq
      by (auto simp: sorted_wrt_append nth_append)
  next
    case True
    show ?thesis
    proof (cases "escapeAt s i")
      case esc: True
      let ?j = "skipEscape s (i + 2)"
      have j1: "i + 2 \<le> ?j" by (rule skipEscape_ge)
      have "i + 2 \<le> length s" using esc by (simp add: escapeAt_def)
      then have j2: "?j \<le> length s" by (rule skipEscape_le)
      have run: "scanFrom s ?j runes offsets = (Rs, Os)"
        using "1.prems"(1) True esc by (simp add: scanFrom.simps)
      have "\<forall>x \<in> set offsets. x < ?j" using "1.prems"(4) j1 by auto
      then show ?thesis
        using "1.IH"(1) [OF True esc run "1.prems"(2) j2 _ "1.prems"(5) "1.prems"(6)] by blast
    next
      case noesc: False
      define d where "d = printableRuneAt s i"
      have run: "scanFrom s (i + snd d) (runes @ [fst d]) (offsets @ [i]) = (Rs, Os)"
        using "1.prems"(1) True noesc by (simp add: scanFrom.simps d_def Let_def)
      have pos: "0 < snd d" and le: "i + snd d \<le> length s"
        using printableRuneAt_size_pos [OF True] printableRuneAt_size_le [OF True]
        by (simp_all add: d_def)
      have a: "length (offsets @ [i]) = length (runes @ [fst d])" using "1.prems"(2) by simp
      have b: "\<forall>x \<in> set (offsets @ [i]). x < i + snd d" using "1.prems"(4) pos by auto
      have c: "sorted_wrt (<) (offsets @ [i])"
        using "1.prems"(4,5) by (auto simp: sorted_wrt_append)
      have e: "\<forall>k < length (runes @ [fst d]).
                 printableAt s ((runes @ [fst d]) ! k) ((offsets @ [i]) ! k)"
        using "1.prems"(2,6) True noesc
        by (auto simp: nth_append printableAt_def d_def less_Suc_eq)
      show ?thesis
        using "1.IH"(2) [OF True noesc d_def run a le b c e] .
    qed
  qed
qed

lemma scanFrom_result:
  assumes "printableRunesAndOffsets s = (runes, offsets)"
  shows "length offsets = length runes + 1 \<and> sorted_wrt (<) offsets \<and> last offsets = length s \<and>
   (\<forall>k < length runes. printableAt s (runes ! k) (offsets ! k))"
  using scanFrom_table [of s 0 "[]" "[]" runes offsets] assms
  by (simp add: printableRunesAndOffsets_def)

lemma offsets_mono:
  assumes "printableRunesAndOffsets s = (runes, offsets)"
    and "i \<le> j" and "j < length offsets"
  shows "offsets ! i \<le> offsets ! j \<and> offsets ! j \<le> length s"
proof -
  from scanFrom_result [OF assms(1)]
  have len: "length offsets = length runes + 1"
    and srt: "sorted_wrt (<) offsets"
    and lst: "last offsets = length s"
    by simp_all
  have inc: "\<And>a b. a < b \<Longrightarrow> b < length offsets \<Longrightarrow> offsets ! a < offsets ! b"
    using srt by (simp add: sorted_wrt_iff_nth_less)
  have ne: "offsets \<noteq> []" using len by auto
  have sent: "offsets ! length runes = length s"
    using lst len ne by (simp add: last_conv_nth)
  have a: "offsets ! i \<le> offsets ! j"
    using inc [of i j] assms(2,3) by (cases "i = j") (auto simp: le_less)
  have "j \<le> length runes" using assms(3) len by simp
  then have b: "offsets ! j \<le> offsets ! length runes"
    using inc [of j "length runes"] len by (cases "j = length runes") (auto simp: le_less)
  show ?thesis using a b sent by simp
qed

lemma linkSpans_length: "length (linkSpans P offs n sf ls) = length ls"
  by (induction ls arbitrary: sf) (auto simp: Let_def split: option.splits)

lemma linkSpans_in_range:
  "sp \<in> set (linkSpans P offs n sf ls) \<Longrightarrow> spanOk sp \<Longrightarrow>
     spanStart sp \<le> spanEnd sp \<and> spanEnd sp \<le> n"
proof (induction ls arbitrary: sf)
  case Nil
  then show ?case by simp
next
  case (Cons l ls)
  then show ?case
    by (auto simp: Let_def noSpan_def split: option.splits if_splits)
qed

text \<open>
  Claim C10. For every string \<open>s\<close>, \<open>printableRunesAndOffsets\<close> returns runes and offsets
  with one more offset than runes; the offsets are strictly increasing; each of the
  first \<open>len(runes)\<close> offsets is a byte index into \<open>s\<close> at which the corresponding
  printable rune starts; the last entry is \<open>len(s)\<close>. Consequently any two entries taken
  in order from the table, and every span the highlighter derives from it, satisfy
  \<open>0 \<le> start \<le> end \<le> len(s)\<close>.
\<close>

theorem printableRunesAndOffsets_table:
  assumes "printableRunesAndOffsets s = (runes, offsets)"
  shows "length offsets = length runes + 1
       \<and> (\<forall>i j. i < j \<and> j < length offsets \<longrightarrow> offsets ! i < offsets ! j)
       \<and> (\<forall>i < length runes. offsets ! i < length s \<and> \<not> escapeAt s (offsets ! i)
              \<and> runes ! i = fst (printableRuneAt s (offsets ! i)))
       \<and> offsets ! length runes = length s
       \<and> (\<forall>i j. i \<le> j \<and> j < length offsets \<longrightarrow>
              0 \<le> offsets ! i \<and> offsets ! i \<le> offsets ! j \<and> offsets ! j \<le> length s)
       \<and> (\<forall>reg searchFrom.
            \<forall>sp \<in> set (linkSpans (stringOfRunes runes) offsets (length s) searchFrom reg).
              spanOk sp \<longrightarrow> 0 \<le> spanStart sp \<and> spanStart sp \<le> spanEnd sp
                \<and> spanEnd sp \<le> length s)"
proof -
  from scanFrom_result [OF assms]
  have len: "length offsets = length runes + 1"
    and srt: "sorted_wrt (<) offsets"
    and lst: "last offsets = length s"
    and pr: "\<forall>k < length runes. printableAt s (runes ! k) (offsets ! k)"
    by simp_all
  have inc: "\<forall>i j. i < j \<and> j < length offsets \<longrightarrow> offsets ! i < offsets ! j"
    using srt by (simp add: sorted_wrt_iff_nth_less)
  have ne: "offsets \<noteq> []" using len by auto
  have sent: "offsets ! length runes = length s"
    using lst len ne by (simp add: last_conv_nth)
  have pr': "\<forall>i < length runes. offsets ! i < length s \<and> \<not> escapeAt s (offsets ! i)
              \<and> runes ! i = fst (printableRuneAt s (offsets ! i))"
    using pr by (simp add: printableAt_def)
  have mono: "\<forall>i j. i \<le> j \<and> j < length offsets \<longrightarrow>
              0 \<le> offsets ! i \<and> offsets ! i \<le> offsets ! j \<and> offsets ! j \<le> length s"
  proof (intro allI impI)
    fix i j
    assume "i \<le> j \<and> j < length offsets"
    then show "0 \<le> offsets ! i \<and> offsets ! i \<le> offsets ! j \<and> offsets ! j \<le> length s"
      using offsets_mono [OF assms, of i j] by simp
  qed
  have sp: "\<forall>reg searchFrom.
            \<forall>sp \<in> set (linkSpans (stringOfRunes runes) offsets (length s) searchFrom reg).
              spanOk sp \<longrightarrow> 0 \<le> spanStart sp \<and> spanStart sp \<le> spanEnd sp
                \<and> spanEnd sp \<le> length s"
    using linkSpans_in_range by simp
  show ?thesis
    using len inc pr' sent mono sp by (intro conjI)
qed

theorem printableRunesAndOffsets_table_witness:
  "printableRunesAndOffsets
     [CHR 0x1B, CHR ''['', CHR ''1'', CHR ''m'', CHR 0xC3, CHR 0xA9,
      CHR 0x1B, CHR ''['', CHR ''0'', CHR ''m'', CHR ''!''] = ([0xE9, 0x21], [4, 10, 11])
   \<and> length [4, 10, 11 :: nat] = length [0xE9, 0x21 :: nat] + 1
   \<and> [4, 10, 11 :: nat] ! 0 < [4, 10, 11] ! 1
   \<and> [4, 10, 11 :: nat] ! length [0xE9, 0x21 :: nat]
        = length [CHR 0x1B, CHR ''['', CHR ''1'', CHR ''m'', CHR 0xC3, CHR 0xA9,
                  CHR 0x1B, CHR ''['', CHR ''0'', CHR ''m'', CHR ''!'']"
proof -
  have h: "printableRunesAndOffsets
     [CHR 0x1B, CHR ''['', CHR ''1'', CHR ''m'', CHR 0xC3, CHR 0xA9,
      CHR 0x1B, CHR ''['', CHR ''0'', CHR ''m'', CHR ''!''] = ([0xE9, 0x21], [4, 10, 11])"
    by (simp add: printableRunesAndOffsets_def scanFrom.simps skipEscape.simps escapeAt_def
        printableRuneAt_def DecodeRuneInString_def byte_def RuneError_def)
  from printableRunesAndOffsets_table [OF h] h show ?thesis by simp
qed

section \<open>Escape sequences survive highlighting\<close>

text \<open>
  The escape sequences of a text, as the scanner recognises them: the byte range
  \<open>[x, y)\<close> of each sequence it skips, in order.
\<close>

function escapeSpansFrom :: "string \<Rightarrow> nat \<Rightarrow> (nat \<times> nat) list" where
  "escapeSpansFrom s i =
     (if i < length s then
        (if escapeAt s i then (i, skipEscape s (i + 2)) # escapeSpansFrom s (skipEscape s (i + 2))
         else escapeSpansFrom s (i + snd (printableRuneAt s i)))
      else [])"
  by pat_completeness auto
termination
proof (relation "measure (\<lambda>(s, i). length s - i)", goal_cases)
  case 1
  show ?case by simp
next
  case (2 s i)
  have "i + 2 \<le> skipEscape s (i + 2)" by (rule skipEscape_ge)
  with 2 show ?case by simp
next
  case (3 s i)
  with printableRuneAt_size_pos [of i s] show ?case by simp
qed

declare escapeSpansFrom.simps [simp del]

definition escapeSpans :: "string \<Rightarrow> (nat \<times> nat) list" where
  "escapeSpans s = escapeSpansFrom s 0"

lemma scanFrom_offsets_new:
  "scanFrom s i rs os = (Rs, Os) \<Longrightarrow> i \<le> length s \<Longrightarrow> x \<in> set Os \<Longrightarrow> x \<in> set os \<or> i \<le> x"
proof (induction s i rs os rule: scanFrom.induct)
  case (1 s i runes offsets)
  show ?case
  proof (cases "i < length s")
    case False
    with "1.prems" show ?thesis by (auto simp: scanFrom.simps)
  next
    case True
    show ?thesis
    proof (cases "escapeAt s i")
      case esc: True
      let ?j = "skipEscape s (i + 2)"
      have run: "scanFrom s ?j runes offsets = (Rs, Os)"
        using "1.prems"(1) True esc by (simp add: scanFrom.simps)
      have j1: "i + 2 \<le> ?j" by (rule skipEscape_ge)
      have "i + 2 \<le> length s" using esc by (simp add: escapeAt_def)
      then have j2: "?j \<le> length s" by (rule skipEscape_le)
      from "1.IH"(1) [OF True esc run j2 "1.prems"(3)] j1 show ?thesis by auto
    next
      case noesc: False
      define d where "d = printableRuneAt s i"
      have run: "scanFrom s (i + snd d) (runes @ [fst d]) (offsets @ [i]) = (Rs, Os)"
        using "1.prems"(1) True noesc by (simp add: scanFrom.simps d_def Let_def)
      have le: "i + snd d \<le> length s"
        using printableRuneAt_size_le [OF True] by (simp add: d_def)
      from "1.IH"(2) [OF True noesc d_def run le "1.prems"(3)] show ?thesis by auto
    qed
  qed
qed

lemma escapeSpansFrom_bounds:
  "(x, y) \<in> set (escapeSpansFrom s i) \<Longrightarrow> i \<le> x \<and> x + 2 \<le> y \<and> y \<le> length s"
proof (induction s i rule: escapeSpansFrom.induct)
  case (1 s i)
  show ?case
  proof (cases "i < length s")
    case False
    with "1.prems" show ?thesis by (simp add: escapeSpansFrom.simps)
  next
    case True
    show ?thesis
    proof (cases "escapeAt s i")
      case esc: True
      let ?j = "skipEscape s (i + 2)"
      have j1: "i + 2 \<le> ?j" by (rule skipEscape_ge)
      have "i + 2 \<le> length s" using esc by (simp add: escapeAt_def)
      then have j2: "?j \<le> length s" by (rule skipEscape_le)
      from "1.prems" True esc
      consider "(x, y) = (i, ?j)" | "(x, y) \<in> set (escapeSpansFrom s ?j)"
        by (subst (asm) escapeSpansFrom.simps) auto
      then show ?thesis
      proof cases
        case 1
        then show ?thesis using j1 j2 by simp
      next
        case 2
        from "1.IH"(1) [OF True esc 2] j1 show ?thesis by simp
      qed
    next
      case noesc: False
      from "1.prems" True noesc
      have "(x, y) \<in> set (escapeSpansFrom s (i + snd (printableRuneAt s i)))"
        by (subst (asm) escapeSpansFrom.simps) simp
      from "1.IH"(2) [OF True noesc this] show ?thesis by simp
    qed
  qed
qed

lemma scanFrom_avoids_escapes:
  "scanFrom s i rs os = (Rs, Os) \<Longrightarrow> (x, y) \<in> set (escapeSpansFrom s i) \<Longrightarrow>
   i \<le> length s \<Longrightarrow> (\<forall>p \<in> set os. p \<le> i) \<Longrightarrow> p \<in> set Os \<Longrightarrow> p \<le> x \<or> y \<le> p"
proof (induction s i rs os rule: scanFrom.induct)
  case (1 s i runes offsets)
  show ?case
  proof (cases "i < length s")
    case False
    with "1.prems" show ?thesis by (simp add: escapeSpansFrom.simps)
  next
    case True
    show ?thesis
    proof (cases "escapeAt s i")
      case esc: True
      let ?j = "skipEscape s (i + 2)"
      have j1: "i + 2 \<le> ?j" by (rule skipEscape_ge)
      have "i + 2 \<le> length s" using esc by (simp add: escapeAt_def)
      then have j2: "?j \<le> length s" by (rule skipEscape_le)
      have run: "scanFrom s ?j runes offsets = (Rs, Os)"
        using "1.prems"(1) True esc by (simp add: scanFrom.simps)
      from "1.prems"(2) True esc
      consider "(x, y) = (i, ?j)" | "(x, y) \<in> set (escapeSpansFrom s ?j)"
        by (subst (asm) escapeSpansFrom.simps) auto
      then show ?thesis
      proof cases
        case 1
        from scanFrom_offsets_new [OF run j2 "1.prems"(5)] "1.prems"(4) 1
        show ?thesis by auto
      next
        case 2
        have "\<forall>p \<in> set offsets. p \<le> ?j" using "1.prems"(4) j1 by auto
        from "1.IH"(1) [OF True esc run 2 j2 this "1.prems"(5)] show ?thesis .
      qed
    next
      case noesc: False
      define d where "d = printableRuneAt s i"
      have run: "scanFrom s (i + snd d) (runes @ [fst d]) (offsets @ [i]) = (Rs, Os)"
        using "1.prems"(1) True noesc by (simp add: scanFrom.simps d_def Let_def)
      have le: "i + snd d \<le> length s"
        using printableRuneAt_size_le [OF True] by (simp add: d_def)
      from "1.prems"(2) True noesc
      have sp: "(x, y) \<in> set (escapeSpansFrom s (i + snd d))"
        by (subst (asm) escapeSpansFrom.simps) (simp add: d_def)
      have "\<forall>p \<in> set (offsets @ [i]). p \<le> i + snd d" using "1.prems"(4) by auto
      from "1.IH"(2) [OF True noesc d_def run sp le this "1.prems"(5)] show ?thesis .
    qed
  qed
qed

lemma offsets_avoid_escapes:
  assumes "printableRunesAndOffsets s = (runes, offsets)"
    and "(x, y) \<in> set (escapeSpans s)" and "p \<in> set offsets"
  shows "p \<le> x \<or> y \<le> p"
  using scanFrom_avoids_escapes [of s 0 "[]" "[]" runes offsets x y p] assms
  by (simp add: printableRunesAndOffsets_def escapeSpans_def)

lemma linkSpans_from_table:
  "sp \<in> set (linkSpans P offs n sf ls) \<Longrightarrow> spanOk sp \<Longrightarrow>
     spanStart sp \<in> set offs \<and> spanEnd sp \<in> set offs"
proof (induction ls arbitrary: sf)
  case Nil
  then show ?case by simp
next
  case (Cons l ls)
  then show ?case
    by (auto simp: Let_def noSpan_def split: option.splits if_splits)
qed


text \<open>
  Where the byte at index \<open>x\<close> of the input stands in the output, once the markers have
  been inserted at \<open>a\<close> and \<open>b\<close>.
\<close>

definition shiftedPos :: "nat \<Rightarrow> nat \<Rightarrow> nat \<Rightarrow> nat" where
  "shiftedPos a b x =
     x + (if a \<le> x then length reverseOn else 0) + (if b \<le> x then length reverseOff else 0)"

lemma shiftedPos_mono: "x < x' \<Longrightarrow> shiftedPos a b x < shiftedPos a b x'"
  by (simp add: shiftedPos_def)

lemma wrapSpan_split:
  assumes "a \<le> b" and "b \<le> length r"
  obtains r1 r2 r3 where "r = r1 @ r2 @ r3" and "length r1 = a" and "length r2 = b - a"
    and "wrapSpan r a b = r1 @ reverseOn @ r2 @ reverseOff @ r3"
proof
  show "r = take a r @ drop a (take b r) @ drop b r"
    using assms by (metis append_take_drop_id drop_take take_take min.absorb1 append.assoc
        le_add_diff_inverse take_add)
  show "length (take a r) = a" using assms by simp
  show "length (drop a (take b r)) = b - a" using assms by simp
  show "wrapSpan r a b = take a r @ reverseOn @ drop a (take b r) @ reverseOff @ drop b r"
    by (simp add: wrapSpan_def)
qed

lemma wrapSpan_keeps:
  assumes ab: "a \<le> b" "b \<le> length r"
    and xy: "x \<le> y" "y \<le> length r"
    and oa: "a \<le> x \<or> y \<le> a" and ob: "b \<le> x \<or> y \<le> b"
  shows "take (y - x) (drop (shiftedPos a b x) (wrapSpan r a b)) = take (y - x) (drop x r)"
proof -
  from ab obtain r1 r2 r3 where r: "r = r1 @ r2 @ r3" and l1: "length r1 = a"
    and l2: "length r2 = b - a" and w: "wrapSpan r a b = r1 @ reverseOn @ r2 @ reverseOff @ r3"
    by (rule wrapSpan_split)
  have w': "wrapSpan (r1 @ r2 @ r3) a b = r1 @ reverseOn @ r2 @ reverseOff @ r3"
    using w r by simp
  consider "x = y" | "x < y" "y \<le> a" | "x < y" "a \<le> x" "y \<le> b" | "x < y" "b \<le> x"
    using xy oa ob by linarith
  then show ?thesis
  proof cases
    case 1
    then show ?thesis by simp
  next
    case 2
    then show ?thesis using l1 l2 ab by (simp add: w' r shiftedPos_def)
  next
    case 3
    then show ?thesis using l1 l2 ab by (simp add: w' r shiftedPos_def)
  next
    case 4
    then show ?thesis using l1 l2 ab by (simp add: w' r shiftedPos_def)
  qed
qed


lemmas go_eval =
  byte_def RuneError_def DecodeRuneInString_def DecodeLastRuneInString_def RuneStart_def
  encodeRune_def stringOfRunes_def RuneCountInString.simps IsSpace_def
  trimLeftSpace.simps trimRightSpace.simps TrimSpace_def char_of_def Let_def bit_Suc_0_iff

lemmas highlight_eval =
  highlightFocusedLink_def printableRunesAndOffsets_def scanFrom.simps skipEscape.simps
  escapeAt_def printableRuneAt_def wrapSpan_def reverseOn_def reverseOff_def noSpan_def

text \<open>
  Claim C4. For every rendered text, registry and focused index, the output of
  \<open>highlightFocusedLink\<close> is either the input itself, or the input with the
  reverse-video start marker inserted at byte \<open>a\<close> and the end marker at byte \<open>b\<close>,
  \<open>a \<le> b \<le> len(rendered)\<close>, every other byte unchanged. Neither insertion point lies
  strictly inside an escape sequence of the input, so each escape sequence \<open>[x, y)\<close>
  of the input stands intact in the output, at the position \<open>shiftedPos a b x\<close>; the
  shift is strictly monotone, so the sequences keep their relative order.
\<close>

theorem highlight_keeps_escapes:
  "highlightFocusedLink rtext reg focused = rtext
   \<or> (\<exists>a b. a \<le> b \<and> b \<le> length rtext
        \<and> highlightFocusedLink rtext reg focused
            = take a rtext @ reverseOn @ drop a (take b rtext) @ reverseOff
                @ drop b rtext
        \<and> (\<forall>(x, y) \<in> set (escapeSpans rtext).
              (a \<le> x \<or> y \<le> a) \<and> (b \<le> x \<or> y \<le> b)
              \<and> take (y - x) (drop (shiftedPos a b x)
                    (highlightFocusedLink rtext reg focused))
                  = take (y - x) (drop x rtext))
        \<and> (\<forall>x x'. x < x' \<longrightarrow> shiftedPos a b x < shiftedPos a b x'))"
proof (cases "highlightFocusedLink rtext reg focused = rtext")
  case True
  then show ?thesis by simp
next
  case False
  obtain printable offsets where po: "printableRunesAndOffsets rtext = (printable, offsets)"
    by (cases "printableRunesAndOffsets rtext")
  define spans where
    "spans = linkSpans (stringOfRunes printable) offsets (length rtext) 0 reg"
  define sp where "sp = spans ! nat focused"
  from False po have rng: "0 \<le> focused" "focused < int (length reg)"
    and ok: "spanOk sp"
    and out: "highlightFocusedLink rtext reg focused
                = wrapSpan rtext (spanStart sp) (spanEnd sp)"
    by (auto simp: highlightFocusedLink_def Let_def spans_def sp_def split: if_splits)
  have "nat focused < length spans"
    using rng by (simp add: spans_def linkSpans_length)
  then have mem: "sp \<in> set spans" by (simp add: sp_def)
  let ?a = "spanStart sp" and ?b = "spanEnd sp"
  have ab: "?a \<le> ?b" "?b \<le> length rtext"
    using linkSpans_in_range [OF mem [unfolded spans_def] ok] by simp_all
  have tab: "?a \<in> set offsets" "?b \<in> set offsets"
    using linkSpans_from_table [OF mem [unfolded spans_def] ok] by simp_all
  have esc: "\<forall>(x, y) \<in> set (escapeSpans rtext).
              (?a \<le> x \<or> y \<le> ?a) \<and> (?b \<le> x \<or> y \<le> ?b)
              \<and> take (y - x) (drop (shiftedPos ?a ?b x)
                    (highlightFocusedLink rtext reg focused))
                  = take (y - x) (drop x rtext)"
  proof (clarify, intro conjI)
    fix x y
    assume xy: "(x, y) \<in> set (escapeSpans rtext)"
    then have b: "x \<le> y" "y \<le> length rtext"
      using escapeSpansFrom_bounds [of x y rtext 0] by (simp_all add: escapeSpans_def)
    show oa: "?a \<le> x \<or> y \<le> ?a"
      by (rule offsets_avoid_escapes [OF po xy tab(1)])
    show ob: "?b \<le> x \<or> y \<le> ?b"
      by (rule offsets_avoid_escapes [OF po xy tab(2)])
    show "take (y - x) (drop (shiftedPos ?a ?b x)
             (highlightFocusedLink rtext reg focused)) = take (y - x) (drop x rtext)"
      unfolding out by (rule wrapSpan_keeps [OF ab b oa ob])
  qed
  have "highlightFocusedLink rtext reg focused
            = take ?a rtext @ reverseOn @ drop ?a (take ?b rtext) @ reverseOff
                @ drop ?b rtext"
    using out by (simp add: wrapSpan_def)
  with ab esc shiftedPos_mono show ?thesis by blast
qed


definition sampleLink :: followableLink where
  "sampleLink = \<lparr>Href = ''a.md'', Path = ''a.md'', Fragment = [], Label = ''Go'',
     ResolvedPath = ''/r/a.md'', ResolvedNote = ''a.md''\<rparr>"

definition sampleRendered :: string where
  "sampleRendered = CHR 0x1B # ''[31mGo'' @ CHR 0x1B # ''[0m''"

theorem highlight_keeps_escapes_witness:
  "highlightFocusedLink sampleRendered [sampleLink] 0
     = CHR 0x1B # ''[31m'' @ CHR 0x1B # ''[7mGo'' @ CHR 0x1B # ''[0m'' @ CHR 0x1B # ''[27m''
   \<and> escapeSpans sampleRendered = [(0, 5), (7, 11)]
   \<and> (highlightFocusedLink sampleRendered [sampleLink] 0 = sampleRendered
      \<or> (\<exists>a b. a \<le> b \<and> b \<le> length sampleRendered
        \<and> highlightFocusedLink sampleRendered [sampleLink] 0
            = take a sampleRendered @ reverseOn @ drop a (take b sampleRendered) @ reverseOff
                @ drop b sampleRendered
        \<and> (\<forall>(x, y) \<in> set (escapeSpans sampleRendered).
              (a \<le> x \<or> y \<le> a) \<and> (b \<le> x \<or> y \<le> b)
              \<and> take (y - x) (drop (shiftedPos a b x)
                    (highlightFocusedLink sampleRendered [sampleLink] 0))
                  = take (y - x) (drop x sampleRendered))
        \<and> (\<forall>x x'. x < x' \<longrightarrow> shiftedPos a b x < shiftedPos a b x')))"
proof -
  have a: "highlightFocusedLink sampleRendered [sampleLink] 0
     = CHR 0x1B # ''[31m'' @ CHR 0x1B # ''[7mGo'' @ CHR 0x1B # ''[0m'' @ CHR 0x1B # ''[27m''"
    by (simp add: go_eval highlight_eval sampleLink_def sampleRendered_def)
  have b: "escapeSpans sampleRendered = [(0, 5), (7, 11)]"
    by (simp add: escapeSpans_def escapeSpansFrom.simps go_eval highlight_eval
        sampleRendered_def)
  from a b highlight_keeps_escapes [of sampleRendered "[sampleLink]" 0]
  show ?thesis by (intro conjI)
qed

section \<open>UTF-8: encoding and decoding agree\<close>

text \<open>
  The runes the scanner produces are Unicode scalar values (a raw byte it keeps is below
  \<open>0x100\<close>). On scalar values, decoding the encoding gives the rune back, so that
  positions in the rune slice and positions in its string can be translated into each
  other.
\<close>

definition validRune :: "nat \<Rightarrow> bool" where
  "validRune r = (r < 0x110000 \<and> \<not> (0xD800 \<le> r \<and> r \<le> 0xDFFF))"

lemma byte_char_of: "n < 256 \<Longrightarrow> byte (char_of n) = n"
  by (simp add: byte_def)

lemma decode_encode1:
  assumes "r < 0x80"
  shows "DecodeRuneInString (encodeRune r @ t) = (r, length (encodeRune r))"
  using assms by (simp add: DecodeRuneInString_def encodeRune_def byte_char_of)

lemma decode_encode2:
  assumes "0x80 \<le> r" "r < 0x800"
  shows "DecodeRuneInString (encodeRune r @ t) = (r, length (encodeRune r))"
proof -
  define a where "a = r div 64"
  define b where "b = r mod 64"
  have r: "r = a * 64 + b" by (simp add: a_def b_def)
  have a: "2 \<le> a" "a < 32" and b: "b < 64"
    using assms by (auto simp: a_def b_def)
  have s0: "byte (char_of (0xC0 + a)) = 0xC0 + a" using a by (simp add: byte_char_of)
  have s1: "byte (char_of (0x80 + b)) = 0x80 + b" using b by (simp add: byte_char_of)
  have m0: "(0xC0 + a) mod 32 = a" using a by (simp add: mod_if)
  have m1: "(0x80 + b) mod 64 = b" using b by (simp add: mod_if)
  have enc: "encodeRune r = [char_of (0xC0 + a), char_of (0x80 + b)]"
    using assms by (simp add: encodeRune_def a_def b_def)
  show ?thesis
    unfolding enc using a b by (simp add: DecodeRuneInString_def s0 s1 m0 m1 r Let_def)
qed


lemma decode_encode3:
  assumes "0x800 \<le> r" "r < 0x10000" "\<not> (0xD800 \<le> r \<and> r \<le> 0xDFFF)"
  shows "DecodeRuneInString (encodeRune r @ t) = (r, length (encodeRune r))"
proof -
  define q where "q = r div 64"
  define a where "a = q div 64"
  define b where "b = q mod 64"
  define c where "c = r mod 64"
  have rq: "r = q * 64 + c" by (simp add: q_def c_def)
  have qa: "q = a * 64 + b" by (simp add: a_def b_def)
  have r: "r = a * 4096 + b * 64 + c" using rq qa by simp
  have bc: "b < 64" "c < 64" by (simp_all add: b_def c_def)
  have a: "a < 16" using assms(2) r by linarith
  have a0: "a = 0 \<Longrightarrow> 32 \<le> b" using assms(1) r bc by linarith
  have a13: "a = 13 \<Longrightarrow> b < 32" using assms(3) r bc by linarith
  have d1: "r div 4096 = a" by (simp add: a_def q_def div_mult2_eq [symmetric])
  have d2: "(r div 64) mod 64 = b" by (simp add: b_def q_def)
  have s0: "byte (char_of (0xE0 + a)) = 0xE0 + a" using a by (simp add: byte_char_of)
  have s1: "byte (char_of (0x80 + b)) = 0x80 + b" using bc by (simp add: byte_char_of)
  have s2: "byte (char_of (0x80 + c)) = 0x80 + c" using bc by (simp add: byte_char_of)
  have m0: "(0xE0 + a) mod 16 = a" using a by (simp add: mod_if)
  have m1: "(0x80 + b) mod 64 = b" using bc by (simp add: mod_if)
  have m2: "(0x80 + c) mod 64 = c" using bc by (simp add: mod_if)
  have enc: "encodeRune r = [char_of (0xE0 + a), char_of (0x80 + b), char_of (0x80 + c)]"
    using assms by (auto simp: encodeRune_def d1 d2 c_def)
  show ?thesis
    unfolding enc using a bc a0 a13
    by (auto simp: DecodeRuneInString_def s0 s1 s2 m0 m1 m2 r Let_def)
qed


lemma decode_encode4:
  assumes "0x10000 \<le> r" "r < 0x110000"
  shows "DecodeRuneInString (encodeRune r @ t) = (r, length (encodeRune r))"
proof -
  define q where "q = r div 64"
  define p where "p = q div 64"
  define a where "a = p div 64"
  define b where "b = p mod 64"
  define c where "c = q mod 64"
  define d where "d = r mod 64"
  have rq: "r = q * 64 + d" by (simp add: q_def d_def)
  have qp: "q = p * 64 + c" by (simp add: p_def c_def)
  have pa: "p = a * 64 + b" by (simp add: a_def b_def)
  have r: "r = a * 262144 + b * 4096 + c * 64 + d" using rq qp pa by simp
  have bcd: "b < 64" "c < 64" "d < 64" by (simp_all add: b_def c_def d_def)
  have a: "a < 5" using assms(2) r by linarith
  have a0: "a = 0 \<Longrightarrow> 16 \<le> b" using assms(1) r bcd by linarith
  have a4: "a = 4 \<Longrightarrow> b < 16" using assms(2) r bcd by linarith
  have d0: "r div 4096 = p" by (simp add: p_def q_def div_mult2_eq [symmetric])
  have d1: "r div 262144 = a" by (simp add: a_def p_def q_def div_mult2_eq [symmetric])
  have d2: "(r div 4096) mod 64 = b" by (simp add: d0 b_def)
  have d3: "(r div 64) mod 64 = c" by (simp add: c_def q_def)
  have s0: "byte (char_of (0xF0 + a)) = 0xF0 + a" using a by (simp add: byte_char_of)
  have s1: "byte (char_of (0x80 + b)) = 0x80 + b" using bcd by (simp add: byte_char_of)
  have s2: "byte (char_of (0x80 + c)) = 0x80 + c" using bcd by (simp add: byte_char_of)
  have s3: "byte (char_of (0x80 + d)) = 0x80 + d" using bcd by (simp add: byte_char_of)
  have m0: "(0xF0 + a) mod 8 = a" using a by (simp add: mod_if)
  have m1: "(0x80 + b) mod 64 = b" using bcd by (simp add: mod_if)
  have m2: "(0x80 + c) mod 64 = c" using bcd by (simp add: mod_if)
  have m3: "(0x80 + d) mod 64 = d" using bcd by (simp add: mod_if)
  have enc: "encodeRune r = [char_of (0xF0 + a), char_of (0x80 + b), char_of (0x80 + c),
                 char_of (0x80 + d)]"
    using assms by (auto simp: encodeRune_def d1 d2 d3 d_def)
  show ?thesis
    unfolding enc using a bcd a0 a4
    by (auto simp: DecodeRuneInString_def s0 s1 s2 s3 m0 m1 m2 m3 r Let_def)
qed

lemma decode_encode:
  assumes "validRune r"
  shows "DecodeRuneInString (encodeRune r @ t) = (r, length (encodeRune r))"
proof -
  consider "r < 0x80" | "0x80 \<le> r" "r < 0x800" | "0x800 \<le> r" "r < 0x10000"
    | "0x10000 \<le> r" by linarith
  then show ?thesis
  proof cases
    case 1 then show ?thesis by (rule decode_encode1)
  next
    case 2 then show ?thesis by (rule decode_encode2)
  next
    case 3 then show ?thesis using assms by (intro decode_encode3) (auto simp: validRune_def)
  next
    case 4 then show ?thesis using assms by (intro decode_encode4) (auto simp: validRune_def)
  qed
qed

lemma encodeRune_nonempty: "encodeRune r \<noteq> []"
  by (simp add: encodeRune_def)

lemma encodeRune_length_pos: "0 < length (encodeRune r)"
  using encodeRune_nonempty [of r] by simp

lemma encodeRune_hd_start: "RuneStart (hd (encodeRune r))"
proof -
  have a: "r < 0x800 \<Longrightarrow> r div 64 < 32" by simp
  have b: "r < 0x10000 \<Longrightarrow> r div 4096 < 16" by simp
  have c: "\<not> 0x10FFFF < r \<Longrightarrow> r div 262144 < 5" by simp
  show ?thesis
    using a b c
    by (auto simp: encodeRune_def RuneStart_def byte_char_of byte_def)
qed

lemma encodeRune_tl_cont: "c \<in> set (tl (encodeRune r)) \<Longrightarrow> \<not> RuneStart c"
proof -
  have m: "\<And>x::nat. x mod 64 < 64" by simp
  have k: "\<And>x::nat. byte (char_of (0x80 + x mod 64)) = 0x80 + x mod 64"
    using m by (simp add: byte_char_of)
  assume "c \<in> set (tl (encodeRune r))"
  then show ?thesis
    using m by (auto simp: encodeRune_def RuneStart_def k byte_def split: if_splits)
qed

lemma cont_mod: "128 \<le> x \<Longrightarrow> x \<le> 191 \<Longrightarrow> x mod 64 = x - (128::nat)"
  by (simp add: mod_if)

lemma lead2_mod: "192 \<le> x \<Longrightarrow> x < 224 \<Longrightarrow> x mod 32 = x - (192::nat)"
  by (simp add: mod_if)

lemma lead3_mod: "224 \<le> x \<Longrightarrow> x < 240 \<Longrightarrow> x mod 16 = x - (224::nat)"
  by (simp add: mod_if)

lemma lead4_mod: "240 \<le> x \<Longrightarrow> x < 248 \<Longrightarrow> x mod 8 = x - (240::nat)"
  by (simp add: mod_if)

lemma validRune_RuneError: "validRune RuneError"
  by (simp add: validRune_def RuneError_def)

lemma DecodeRuneInString_valid: "validRune (fst (DecodeRuneInString s))"
proof (cases s)
  case Nil
  then show ?thesis by (simp add: DecodeRuneInString_def validRune_RuneError)
next
  case (Cons c0 t)
  define s0 where "s0 = byte c0"
  define s1 where "s1 = byte (s ! 1)"
  define s2 where "s2 = byte (s ! 2)"
  define s3 where "s3 = byte (s ! 3)"
  have v2: "validRune ((s0 mod 32) * 64 + s1 mod 64)"
    if "194 \<le> s0" "s0 < 224" "128 \<le> s1" "s1 \<le> 191"
    using that by (simp add: lead2_mod cont_mod validRune_def) linarith
  have v3: "validRune ((s0 mod 16) * 4096 + (s1 mod 64) * 64 + s2 mod 64)"
    if "224 \<le> s0" "s0 < 240" "128 \<le> s1" "s1 \<le> 191" "128 \<le> s2" "s2 \<le> 191"
       "s0 = 237 \<longrightarrow> s1 \<le> 159"
  proof -
    have "s0 < 237 \<or> s0 = 237 \<or> 237 < s0" by linarith
    then show ?thesis
      using that by (simp add: lead3_mod cont_mod validRune_def) linarith
  qed
  have v4: "validRune ((s0 mod 8) * 262144 + (s1 mod 64) * 4096 + (s2 mod 64) * 64 + s3 mod 64)"
    if "240 \<le> s0" "s0 \<le> 244" "128 \<le> s1" "s1 \<le> 191" "128 \<le> s2" "s2 \<le> 191"
       "128 \<le> s3" "s3 \<le> 191" "s0 = 240 \<longrightarrow> 144 \<le> s1" "s0 = 244 \<longrightarrow> s1 \<le> 143"
  proof -
    have "s0 < 244 \<or> s0 = 244" using that by linarith
    then show ?thesis
      using that by (simp add: lead4_mod cont_mod validRune_def) linarith
  qed
  show ?thesis
    unfolding DecodeRuneInString_def Cons list.case Let_def
    using v2 v3 v4 validRune_RuneError
    apply (simp only: s0_def [symmetric] s1_def [symmetric, unfolded Cons]
        s2_def [symmetric, unfolded Cons] s3_def [symmetric, unfolded Cons])
    apply (auto simp: validRune_def RuneError_def)
    done
qed

lemma stringOfRunes_Nil [simp]: "stringOfRunes [] = []"
  by (simp add: stringOfRunes_def)

lemma stringOfRunes_Cons [simp]: "stringOfRunes (r # rs) = encodeRune r @ stringOfRunes rs"
  by (simp add: stringOfRunes_def)

lemma stringOfRunes_append [simp]:
  "stringOfRunes (xs @ ys) = stringOfRunes xs @ stringOfRunes ys"
  by (simp add: stringOfRunes_def)

lemma stringOfRunes_eq_Nil [simp]: "stringOfRunes rs = [] \<longleftrightarrow> rs = []"
  by (cases rs) (simp_all add: encodeRune_nonempty)

lemma RuneCount_stringOfRunes:
  "\<forall>r \<in> set rs. validRune r \<Longrightarrow> RuneCountInString (stringOfRunes rs) = length rs"
proof (induction rs)
  case Nil
  show ?case by (simp add: RuneCountInString.simps)
next
  case (Cons r rs)
  have v: "validRune r" using Cons.prems by simp
  have d: "DecodeRuneInString (encodeRune r @ stringOfRunes rs) = (r, length (encodeRune r))"
    by (rule decode_encode [OF v])
  have m: "max (Suc 0) (length (encodeRune r)) = length (encodeRune r)"
    using encodeRune_length_pos [of r] by (simp add: max_def Suc_le_eq)
  show ?case
    using Cons
    by (subst RuneCountInString.simps) (simp add: d m encodeRune_nonempty)
qed

lemma encode_cancel:
  assumes "validRune r" "validRune l" "encodeRune r @ t = encodeRune l @ u"
  shows "r = l \<and> t = u"
proof -
  have "DecodeRuneInString (encodeRune r @ t) = DecodeRuneInString (encodeRune l @ u)"
    using assms(3) by simp
  then have "r = l" using decode_encode [OF assms(1)] decode_encode [OF assms(2)] by simp
  with assms(3) show ?thesis by simp
qed

lemma prefix_stringOfRunes:
  "\<forall>r \<in> set ls. validRune r \<Longrightarrow> \<forall>r \<in> set rs. validRune r \<Longrightarrow>
   prefix (stringOfRunes ls) (stringOfRunes rs) \<Longrightarrow> prefix ls rs"
proof (induction ls arbitrary: rs)
  case Nil
  show ?case by simp
next
  case (Cons l ls)
  from Cons.prems(3) obtain z where z: "stringOfRunes rs = stringOfRunes (l # ls) @ z"
    by (auto simp: prefix_def)
  then have "rs \<noteq> []" by (auto simp: encodeRune_nonempty)
  then obtain r rs' where rs: "rs = r # rs'" by (cases rs) auto
  from z rs have "encodeRune r @ stringOfRunes rs' = encodeRune l @ (stringOfRunes ls @ z)"
    by simp
  from encode_cancel [OF _ _ this] Cons.prems(1,2) rs
  have e: "r = l" "stringOfRunes rs' = stringOfRunes ls @ z" by simp_all
  have "prefix ls rs'"
    using Cons.IH [of rs'] Cons.prems(1,2) e rs by (simp add: prefix_def)
  with e rs show ?case by simp
qed

definition bytePos :: "nat list \<Rightarrow> nat \<Rightarrow> nat" where
  "bytePos rs k = length (stringOfRunes (take k rs))"

lemma bytePos_0 [simp]: "bytePos rs 0 = 0"
  by (simp add: bytePos_def)

lemma bytePos_Suc_Cons [simp]: "bytePos (r # rs) (Suc k) = length (encodeRune r) + bytePos rs k"
  by (simp add: bytePos_def)

lemma bytePos_mono: "k \<le> k' \<Longrightarrow> bytePos rs k \<le> bytePos rs k'"
proof -
  assume "k \<le> k'"
  then have "take k' rs = take k rs @ take (k' - k) (drop k rs)"
    by (metis le_add_diff_inverse take_add)
  then show ?thesis by (simp add: bytePos_def)
qed

lemma bytePos_less_imp: "bytePos rs k < bytePos rs k' \<Longrightarrow> k < k'"
  using bytePos_mono [of k' k rs] by (cases "k < k'") auto

lemma bytePos_le_length: "bytePos rs k \<le> length (stringOfRunes rs)"
proof -
  have "rs = take k rs @ drop k rs" by simp
  then have "stringOfRunes rs = stringOfRunes (take k rs) @ stringOfRunes (drop k rs)"
    by (metis stringOfRunes_append)
  then show ?thesis by (simp add: bytePos_def)
qed

lemma drop_bytePos: "drop (bytePos rs k) (stringOfRunes rs) = stringOfRunes (drop k rs)"
proof -
  have "rs = take k rs @ drop k rs" by simp
  then have "stringOfRunes rs = stringOfRunes (take k rs) @ stringOfRunes (drop k rs)"
    by (metis stringOfRunes_append)
  then show ?thesis by (simp add: bytePos_def)
qed

lemma take_bytePos: "take (bytePos rs k) (stringOfRunes rs) = stringOfRunes (take k rs)"
proof -
  have "rs = take k rs @ drop k rs" by simp
  then have "stringOfRunes rs = stringOfRunes (take k rs) @ stringOfRunes (drop k rs)"
    by (metis stringOfRunes_append)
  then show ?thesis by (simp add: bytePos_def)
qed

lemma bytePos_drop: "c \<le> k \<Longrightarrow> bytePos rs c + bytePos (drop c rs) (k - c) = bytePos rs k"
proof -
  assume "c \<le> k"
  then have "take k rs = take c rs @ take (k - c) (drop c rs)"
    by (metis le_add_diff_inverse take_add)
  then show ?thesis by (simp add: bytePos_def)
qed

lemma rune_occ_imp_byte_occ:
  "prefix ls (drop k rs) \<Longrightarrow>
     prefix (stringOfRunes ls) (drop (bytePos rs k) (stringOfRunes rs))"
  by (auto simp: drop_bytePos prefix_def)

lemma hd_stringOfRunes_start: "ls \<noteq> [] \<Longrightarrow> RuneStart (hd (stringOfRunes ls))"
  by (cases ls) (simp_all add: encodeRune_nonempty encodeRune_hd_start)

lemma byte_occ_imp_rune_occ:
  "\<forall>r \<in> set ls. validRune r \<Longrightarrow> \<forall>r \<in> set rs. validRune r \<Longrightarrow> ls \<noteq> [] \<Longrightarrow>
   prefix (stringOfRunes ls) (drop b (stringOfRunes rs)) \<Longrightarrow>
   \<exists>k. b = bytePos rs k \<and> prefix ls (drop k rs)"
proof (induction rs arbitrary: b)
  case Nil
  then show ?case by simp
next
  case (Cons r rs)
  let ?n = "length (encodeRune r)"
  have npos: "0 < ?n" by (rule encodeRune_length_pos)
  consider "b = 0" | "0 < b" "b < ?n" | "?n \<le> b" by linarith
  then show ?case
  proof cases
    case 1
    with Cons.prems have "prefix ls (r # rs)"
      using prefix_stringOfRunes [of ls "r # rs"] by simp
    with 1 show ?thesis by (intro exI [of _ 0]) simp
  next
    case 2
    let ?X = "drop b (stringOfRunes (r # rs))"
    have L: "stringOfRunes ls \<noteq> []" using Cons.prems(3) by simp
    from Cons.prems(4) L have X: "?X \<noteq> []" and hd: "hd ?X = hd (stringOfRunes ls)"
      by (auto simp: prefix_def)
    have "hd ?X = encodeRune r ! b" using 2 by (simp add: hd_drop_conv_nth hd_append)
    moreover have "encodeRune r ! b \<in> set (tl (encodeRune r))"
      using 2 by (cases "encodeRune r") (auto simp: nth_Cons' )
    ultimately have "\<not> RuneStart (hd ?X)" using encodeRune_tl_cont by simp
    with hd hd_stringOfRunes_start [OF Cons.prems(3)] show ?thesis by simp
  next
    case 3
    then have "drop b (stringOfRunes (r # rs)) = drop (b - ?n) (stringOfRunes rs)" by simp
    with Cons.prems have "\<exists>k. b - ?n = bytePos rs k \<and> prefix ls (drop k rs)"
      by (intro Cons.IH) simp_all
    then obtain k where k: "b - ?n = bytePos rs k" "prefix ls (drop k rs)" by blast
    with 3 show ?thesis by (intro exI [of _ "Suc k"]) simp
  qed
qed

lemma Index_Some_D:
  "Index s sub = Some i \<Longrightarrow>
     i \<le> length s \<and> prefix sub (drop i s) \<and> (\<forall>j < i. \<not> prefix sub (drop j s))"
proof (induction s arbitrary: i)
  case Nil
  then show ?case by (simp split: if_splits)
next
  case (Cons c cs)
  show ?case
  proof (cases "prefix sub (c # cs)")
    case True
    with Cons.prems show ?thesis by simp
  next
    case False
    with Cons.prems obtain i' where i': "Index cs sub = Some i'" "i = Suc i'" by auto
    from Cons.IH [OF i'(1)] False i'(2) show ?thesis
      by (auto simp: less_Suc_eq_0_disj)
  qed
qed

lemma Index_None_D: "Index s sub = None \<Longrightarrow> \<not> prefix sub (drop j s)"
proof (induction s arbitrary: j)
  case Nil
  then show ?case by (simp split: if_splits)
next
  case (Cons c cs)
  then show ?case by (cases j) (auto split: if_splits)
qed

lemma Index_least:
  assumes "prefix sub (drop i s)" and "\<forall>j < i. \<not> prefix sub (drop j s)"
  shows "Index s sub = Some i"
proof (cases "Index s sub")
  case None
  with assms(1) Index_None_D show ?thesis by blast
next
  case (Some i')
  from Index_Some_D [OF Some] assms show ?thesis
    by (metis Some linorder_neqE_nat)
qed

lemma Index_stringOfRunes:
  assumes vl: "\<forall>r \<in> set ls. validRune r" and vr: "\<forall>r \<in> set rs. validRune r"
    and ne: "ls \<noteq> []"
    and occ: "prefix ls (drop k rs)" and least: "\<forall>j < k. \<not> prefix ls (drop j rs)"
  shows "Index (stringOfRunes rs) (stringOfRunes ls) = Some (bytePos rs k)"
proof (rule Index_least)
  show "prefix (stringOfRunes ls) (drop (bytePos rs k) (stringOfRunes rs))"
    by (rule rune_occ_imp_byte_occ [OF occ])
  show "\<forall>j < bytePos rs k. \<not> prefix (stringOfRunes ls) (drop j (stringOfRunes rs))"
  proof (intro allI impI notI)
    fix j
    assume j: "j < bytePos rs k" and p: "prefix (stringOfRunes ls) (drop j (stringOfRunes rs))"
    from byte_occ_imp_rune_occ [OF vl vr ne p]
    obtain k' where k': "j = bytePos rs k'" "prefix ls (drop k' rs)" by blast
    from j k'(1) have "k' < k" by (simp add: bytePos_less_imp)
    with least k'(2) show False by blast
  qed
qed

section \<open>Which occurrence of a repeated label is highlighted\<close>

text \<open>
  The label, as a sequence of runes \<open>ls\<close>, occurs in the printable stream \<open>rs\<close> at rune
  index \<open>k\<close>.
\<close>

definition occursAt :: "nat list \<Rightarrow> nat list \<Rightarrow> nat \<Rightarrow> bool" where
  "occursAt ls rs k = prefix ls (drop k rs)"

lemma byte_less_256: "byte c < 256"
proof -
  have "byte c mod 256 = byte c" by (simp add: byte_def)
  moreover have "byte c mod 256 < 256" by simp
  ultimately show ?thesis by simp
qed

lemma printableRuneAt_valid: "validRune (fst (printableRuneAt s i))"
proof -
  have "validRune (byte (s ! i))"
    using byte_less_256 [of "s ! i"] by (simp add: validRune_def)
  then show ?thesis
    using DecodeRuneInString_valid [of "drop i s"]
    by (simp add: printableRuneAt_def Let_def)
qed

lemma scanner_runes_valid:
  assumes "printableRunesAndOffsets s = (runes, offsets)"
  shows "\<forall>r \<in> set runes. validRune r"
proof
  fix r assume "r \<in> set runes"
  then obtain k where k: "k < length runes" "runes ! k = r" by (auto simp: in_set_conv_nth)
  from scanFrom_result [OF assms] k(1) have "printableAt s (runes ! k) (offsets ! k)" by simp
  then show "validRune r" using k(2) printableRuneAt_valid by (auto simp: printableAt_def)
qed

lemma linkSpans_step_tl:
  assumes "TrimSpace (Label l) = L" "L \<noteq> []" "sf < length P"
    and "Index (drop sf P) L = Some rel"
  shows "tl (linkSpans P offs n sf (l # ls)) = linkSpans P offs n (sf + rel + length L) ls"
  using assms by (simp add: Let_def)

lemma linkSpans_step_hd:
  assumes "TrimSpace (Label l) = L" "L \<noteq> []" "sf < length P"
    and "Index (drop sf P) L = Some rel"
    and "RuneCountInString (take (sf + rel) P) = a" and "RuneCountInString L = m"
    and "a + m < length offs" and "offs ! a \<le> offs ! (a + m)" and "offs ! (a + m) \<le> n"
  shows "hd (linkSpans P offs n sf (l # ls))
           = \<lparr>spanStart = offs ! a, spanEnd = offs ! (a + m), spanOk = True\<rparr>"
  using assms by (simp add: Let_def)


lemma occursAt_bound:
  assumes "occursAt ls rs k" and "ls \<noteq> []"
  shows "k + length ls \<le> length rs"
proof -
  from assms(1) obtain z where "drop k rs = ls @ z" by (auto simp: occursAt_def prefix_def)
  then have "length rs - k = length ls + length z"
    by (metis length_append length_drop)
  moreover have "0 < length ls" using assms(2) by simp
  ultimately show ?thesis by linarith
qed

lemma bytePos_occ:
  assumes "occursAt ls rs k"
  shows "bytePos rs k + length (stringOfRunes ls) = bytePos rs (k + length ls)"
proof -
  from assms obtain z where z: "drop k rs = ls @ z" by (auto simp: occursAt_def prefix_def)
  have "take (k + length ls) rs = take k rs @ take (length ls) (drop k rs)"
    by (simp add: take_add)
  also have "\<dots> = take k rs @ ls" using z by simp
  finally show ?thesis by (simp add: bytePos_def)
qed

text \<open>
  Claim C3, as amended. Let the first two links of the registry have the same trimmed
  label, a non-empty sequence \<open>ls\<close> of runes; let \<open>k1\<close> be the first rune index at which
  the label occurs in the printable stream, and \<open>k2\<close> the first index at or after the end
  of that occurrence, \<open>k1 + len(ls)\<close>, at which it occurs again. Then highlighting index
  \<open>1\<close> wraps the occurrence at \<open>k2\<close>: the markers are inserted at the byte offsets of
  the printable runes \<open>k2\<close> and \<open>k2 + len(ls)\<close>. The search for the second link starts at
  the end of the first link's match, so an occurrence that overlaps the first one is
  passed over.
\<close>

theorem highlight_second_occurrence:
  assumes po: "printableRunesAndOffsets rtext = (printable, offsets)"
    and l0: "TrimSpace (Label l0) = stringOfRunes ls"
    and l1: "TrimSpace (Label l1) = stringOfRunes ls"
    and ne: "ls \<noteq> []" and vl: "\<forall>r \<in> set ls. validRune r"
    and o1: "occursAt ls printable k1" and m1: "\<forall>j < k1. \<not> occursAt ls printable j"
    and ge: "k1 + length ls \<le> k2" and o2: "occursAt ls printable k2"
    and m2: "\<forall>j. k1 + length ls \<le> j \<and> j < k2 \<longrightarrow> \<not> occursAt ls printable j"
  shows "highlightFocusedLink rtext (l0 # l1 # rest) 1
           = wrapSpan rtext (offsets ! k2) (offsets ! (k2 + length ls))"
proof -
  define P where "P = stringOfRunes printable"
  define L where "L = stringOfRunes ls"
  define n where "n = length ls"
  define c where "c = k1 + n"
  define N where "N = length rtext"
  have vr: "\<forall>r \<in> set printable. validRune r" by (rule scanner_runes_valid [OF po])
  have len: "length offsets = length printable + 1"
    using scanFrom_result [OF po] by simp
  have npos: "0 < n" using ne by (simp add: n_def)
  have Lne: "L \<noteq> []" using ne by (simp add: L_def)
  have b2: "k2 + n \<le> length printable" using occursAt_bound [OF o2 ne] by (simp add: n_def)
  then have pne: "printable \<noteq> []" using npos by auto
  have Pne: "0 < length P" using pne by (simp add: P_def)
  \<comment> \<open>the first link\<close>
  have i0: "Index (drop 0 P) L = Some (bytePos printable k1)"
    using Index_stringOfRunes [OF vl vr ne] o1 m1 by (simp add: P_def L_def occursAt_def)
  have sf1: "0 + bytePos printable k1 + length L = bytePos printable c"
    using bytePos_occ [OF o1] by (simp add: L_def c_def n_def)
  have tl0: "tl (linkSpans P offsets N 0 (l0 # l1 # rest))
               = linkSpans P offsets N (bytePos printable c) (l1 # rest)"
  proof -
    have "TrimSpace (Label l0) = L" using l0 by (simp add: L_def)
    from linkSpans_step_tl [OF this Lne Pne i0, of offsets N "l1 # rest"]
    show ?thesis by (simp only: sf1)
  qed
  \<comment> \<open>the second link\<close>
  have e2: "bytePos printable k2 + length L = bytePos printable (k2 + n)"
    using bytePos_occ [OF o2] by (simp add: L_def n_def)
  have "bytePos printable c \<le> bytePos printable k2"
    using ge by (intro bytePos_mono) (simp add: c_def n_def)
  moreover have "bytePos printable (k2 + n) \<le> length P"
    by (simp add: P_def bytePos_le_length)
  ultimately have sfl: "bytePos printable c < length P"
    using e2 Lne by (cases L) simp_all
  have ck: "c \<le> k2" using ge by (simp add: c_def n_def)
  have vd: "\<forall>r \<in> set (drop c printable). validRune r"
    using vr by (auto dest: in_set_dropD)
  have od: "prefix ls (drop (k2 - c) (drop c printable))"
    using o2 ck by (simp add: occursAt_def)
  have md: "\<forall>j < k2 - c. \<not> prefix ls (drop j (drop c printable))"
  proof (intro allI impI)
    fix j assume "j < k2 - c"
    then have "k1 + length ls \<le> c + j \<and> c + j < k2" by (simp add: c_def n_def)
    with m2 have "\<not> occursAt ls printable (c + j)" by blast
    then show "\<not> prefix ls (drop j (drop c printable))"
      by (simp add: occursAt_def add.commute)
  qed
  have i1: "Index (drop (bytePos printable c) P) L
              = Some (bytePos (drop c printable) (k2 - c))"
    using Index_stringOfRunes [OF vl vd ne od md]
    by (simp add: P_def L_def drop_bytePos)
  have pos: "bytePos printable c + bytePos (drop c printable) (k2 - c) = bytePos printable k2"
    by (rule bytePos_drop [OF ck])
  have vt: "\<forall>r \<in> set (take k2 printable). validRune r"
    using vr by (auto dest: in_set_takeD)
  have rc1: "RuneCountInString
               (take (bytePos printable c + bytePos (drop c printable) (k2 - c)) P) = k2"
    using RuneCount_stringOfRunes [OF vt] b2
    by (simp add: pos P_def take_bytePos)
  have rc2: "RuneCountInString L = n"
    using RuneCount_stringOfRunes [OF vl] by (simp add: L_def n_def)
  have inr: "k2 + n < length offsets" using b2 len by simp
  have mono: "offsets ! k2 \<le> offsets ! (k2 + n)" "offsets ! (k2 + n) \<le> N"
    using offsets_mono [OF po, of k2 "k2 + n"] inr by (simp_all add: N_def)
  have hd1: "hd (linkSpans P offsets N (bytePos printable c) (l1 # rest))
               = \<lparr>spanStart = offsets ! k2, spanEnd = offsets ! (k2 + n), spanOk = True\<rparr>"
  proof -
    have "TrimSpace (Label l1) = L" using l1 by (simp add: L_def)
    from linkSpans_step_hd [OF this Lne sfl i1 rc1 rc2 inr mono, of rest]
    show ?thesis .
  qed
  define spans where "spans = linkSpans P offsets N 0 (l0 # l1 # rest)"
  have l2: "length spans = Suc (Suc (length rest))"
    by (simp add: spans_def linkSpans_length del: linkSpans.simps)
  have "spans ! 1 = hd (tl spans)"
  proof -
    from l2 obtain x y zs where "spans = x # y # zs"
      by (cases spans; cases "tl spans") auto
    then show ?thesis by simp
  qed
  then have sp: "spans ! 1
          = \<lparr>spanStart = offsets ! k2, spanEnd = offsets ! (k2 + n), spanOk = True\<rparr>"
    using tl0 hd1 by (simp only: spans_def)
  show ?thesis
    using po pne sp
    by (simp add: highlightFocusedLink_def P_def [symmetric] N_def [symmetric] n_def
        spans_def [symmetric] del: linkSpans.simps)
qed

definition hereLink :: followableLink where
  "hereLink = \<lparr>Href = ''a.md'', Path = ''a.md'', Fragment = [], Label = ''here'',
     ResolvedPath = ''/r/a.md'', ResolvedNote = ''a.md''\<rparr>"

definition hereRendered :: string where
  "hereRendered = ''here '' @ CHR 0x1B # ''[1mhere''"

theorem highlight_second_occurrence_witness:
  "printableRunesAndOffsets hereRendered
     = ([104, 101, 114, 101, 32, 104, 101, 114, 101], [0, 1, 2, 3, 4, 9, 10, 11, 12, 13])
   \<and> TrimSpace (Label hereLink) = stringOfRunes [104, 101, 114, 101]
   \<and> occursAt [104, 101, 114, 101] [104, 101, 114, 101, 32, 104, 101, 114, 101] 0
   \<and> occursAt [104, 101, 114, 101] [104, 101, 114, 101, 32, 104, 101, 114, 101] 5
   \<and> highlightFocusedLink hereRendered [hereLink, hereLink] 1
       = ''here '' @ CHR 0x1B # ''[1m'' @ CHR 0x1B # ''[7mhere'' @ CHR 0x1B # ''[27m''"
proof -
  let ?rs = "[104, 101, 114, 101, 32, 104, 101, 114, 101] :: nat list"
  let ?os = "[0, 1, 2, 3, 4, 9, 10, 11, 12, 13] :: nat list"
  let ?ls = "[104, 101, 114, 101] :: nat list"
  have po: "printableRunesAndOffsets hereRendered = (?rs, ?os)"
    by (simp add: highlight_eval go_eval hereRendered_def)
  have lb: "TrimSpace (Label hereLink) = stringOfRunes ?ls"
    by (simp add: go_eval hereLink_def)
  have ne: "?ls \<noteq> []" by simp
  have vl: "\<forall>r \<in> set ?ls. validRune r" by (simp add: validRune_def)
  have o1: "occursAt ?ls ?rs 0" by (simp add: occursAt_def)
  have m1: "\<forall>j < (0::nat). \<not> occursAt ?ls ?rs j" by simp
  have ge: "0 + length ?ls \<le> (5::nat)" by simp
  have o2: "occursAt ?ls ?rs 5" by (simp add: occursAt_def)
  have m2: "\<forall>j. 0 + length ?ls \<le> j \<and> j < 5 \<longrightarrow> \<not> occursAt ?ls ?rs j"
  proof (intro allI impI)
    fix j :: nat
    assume "0 + length ?ls \<le> j \<and> j < 5"
    then have "j = 4" by simp
    then show "\<not> occursAt ?ls ?rs j" by (simp add: occursAt_def)
  qed
  have out: "highlightFocusedLink hereRendered [hereLink, hereLink] 1
               = wrapSpan hereRendered (?os ! 5) (?os ! (5 + length ?ls))"
    by (rule highlight_second_occurrence [OF po lb lb ne vl o1 m1 ge o2 m2])
  have "wrapSpan hereRendered (?os ! 5) (?os ! (5 + length ?ls))
          = ''here '' @ CHR 0x1B # ''[1m'' @ CHR 0x1B # ''[7mhere'' @ CHR 0x1B # ''[27m''"
    by (simp add: wrapSpan_def hereRendered_def reverseOn_def reverseOff_def)
  with out po lb o1 o2 show ?thesis by (simp only: simp_thms)
qed

definition aaLink :: followableLink where
  "aaLink = \<lparr>Href = ''a.md'', Path = ''a.md'', Fragment = [], Label = ''aa'',
     ResolvedPath = ''/r/a.md'', ResolvedNote = ''a.md''\<rparr>"

text \<open>
  Claim C3, as stated, fails when the second occurrence overlaps the first. With two
  links labelled \<open>aa\<close>: in \<open>aaaa\<close> the label occurs at rune indices \<open>0\<close>, \<open>1\<close> and \<open>2\<close>,
  and highlighting index \<open>1\<close> wraps the occurrence at index \<open>2\<close> (bytes \<open>2\<close> to \<open>4\<close>),
  not the second one, at index \<open>1\<close>; in \<open>aaa\<close> the label occurs at indices \<open>0\<close> and
  \<open>1\<close>, the search resumes at byte \<open>2\<close>, finds nothing, and the text is returned
  unchanged.
\<close>

theorem highlight_second_occurrence_counterexample:
  "printableRunesAndOffsets ''aaaa'' = ([97, 97, 97, 97], [0, 1, 2, 3, 4])
   \<and> TrimSpace (Label aaLink) = stringOfRunes [97, 97]
   \<and> occursAt [97, 97] [97, 97, 97, 97] 0
   \<and> occursAt [97, 97] [97, 97, 97, 97] 1
   \<and> highlightFocusedLink ''aaaa'' [aaLink, aaLink] 1 = wrapSpan ''aaaa'' 2 4
   \<and> highlightFocusedLink ''aaaa'' [aaLink, aaLink] 1
       \<noteq> wrapSpan ''aaaa'' ([0, 1, 2, 3, 4] ! 1) ([0, 1, 2, 3, 4] ! (1 + length [97, 97 :: nat]))
   \<and> printableRunesAndOffsets ''aaa'' = ([97, 97, 97], [0, 1, 2, 3])
   \<and> occursAt [97, 97] [97, 97, 97] 0
   \<and> occursAt [97, 97] [97, 97, 97] 1
   \<and> highlightFocusedLink ''aaa'' [aaLink, aaLink] 1 = ''aaa''
   \<and> highlightFocusedLink ''aaa'' [aaLink, aaLink] 1
       \<noteq> wrapSpan ''aaa'' ([0, 1, 2, 3] ! 1) ([0, 1, 2, 3] ! (1 + length [97, 97 :: nat]))"
  by (simp add: highlight_eval go_eval aaLink_def occursAt_def)

section \<open>Which destinations are rejected\<close>

text \<open>
  \<open>filepath.Ext\<close> with the slash as separator: the suffix of the last path element that
  starts at its last dot, empty when that element has no dot.
\<close>

definition Ext :: "string \<Rightarrow> string" where
  "Ext path =
     (let t = takeWhile (\<lambda>c. c \<noteq> CHR ''.'' \<and> c \<noteq> CHR ''/'') (rev path) in
      case drop (length t) (rev path) of
        [] \<Rightarrow> []
      | c # _ \<Rightarrow> if c = CHR ''.'' then CHR ''.'' # rev t else [])"

lemma Ext_eq_iff:
  assumes "CHR ''.'' \<notin> set e" "CHR ''/'' \<notin> set e"
  shows "Ext p = CHR ''.'' # e \<longleftrightarrow> suffix (CHR ''.'' # e) p"
proof
  let ?P = "\<lambda>c. c \<noteq> CHR ''.'' \<and> c \<noteq> CHR ''/''"
  assume "suffix (CHR ''.'' # e) p"
  then obtain z where p: "p = z @ CHR ''.'' # e" by (auto simp: suffix_def)
  have rp: "rev p = rev e @ CHR ''.'' # rev z" by (simp add: p)
  have "takeWhile ?P (rev p) = rev e"
    unfolding rp using assms by (subst takeWhile_append2) auto
  then show "Ext p = CHR ''.'' # e"
    by (simp add: Ext_def rp)
next
  let ?P = "\<lambda>c. c \<noteq> CHR ''.'' \<and> c \<noteq> CHR ''/''"
  define t where "t = takeWhile ?P (rev p)"
  assume a: "Ext p = CHR ''.'' # e"
  have "t = take (length t) (rev p)" unfolding t_def by (rule takeWhile_eq_take)
  then have split: "rev p = t @ drop (length t) (rev p)"
    by (metis append_take_drop_id)
  from a obtain r where r: "drop (length t) (rev p) = CHR ''.'' # r" and e: "rev t = e"
    by (auto simp: Ext_def t_def Let_def split: list.splits if_splits)
  from split r have "rev p = t @ CHR ''.'' # r" by simp
  then have "p = rev r @ CHR ''.'' # rev t"
    by (metis rev_append rev.simps(2) rev_rev_ident append.assoc append_Cons append_Nil)
  with e show "suffix (CHR ''.'' # e) p" by (auto simp: suffix_def)
qed

lemma Ext_md: "Ext p = ''.md'' \<longleftrightarrow> HasSuffix p ''.md''"
  using Ext_eq_iff [of "''md''" p] by (simp add: HasSuffix_def)

lemma Ext_markdown: "Ext p = ''.markdown'' \<longleftrightarrow> HasSuffix p ''.markdown''"
  using Ext_eq_iff [of "''markdown''" p] by (simp add: HasSuffix_def)

text \<open>A drive-letter prefix: a letter \<open>A\<close> to \<open>Z\<close> or \<open>a\<close> to \<open>z\<close>, then a colon.\<close>

definition hasDriveLetter :: "string \<Rightarrow> bool" where
  "hasDriveLetter path =
     (case path of
        c0 # c1 # _ \<Rightarrow>
          ((0x61 \<le> byte c0 \<and> byte c0 \<le> 0x7A) \<or> (0x41 \<le> byte c0 \<and> byte c0 \<le> 0x5A))
          \<and> c1 = CHR '':''
      | _ \<Rightarrow> False)"

lemma isAbsoluteOrUNCPath_I:
  "HasPrefix path ''/'' \<or> HasPrefix path [CHR 0x5C, CHR 0x5C] \<or> hasDriveLetter path
     \<Longrightarrow> isAbsoluteOrUNCPath pf path"
  by (auto simp: isAbsoluteOrUNCPath_def hasDriveLetter_def split: list.splits)

text \<open>
  Claim C2. Let \<open>h\<close> be the trimmed href, as the classifier tests it: white space and
  angle brackets are trimmed by \<open>resolveFollowableLink\<close> and once more by
  \<open>isFollowableHref\<close>. Whenever \<open>h\<close> contains \<open>://\<close>, or begins with \<open>mailto:\<close> in any
  letter case, or its path portion (before the first \<open>#\<close>) begins with a slash, with two
  backslashes or with a drive letter and a colon, or the extension of its path portion
  is, in lower case, neither \<open>.md\<close> nor \<open>.markdown\<close>, then \<open>resolveFollowableLink\<close>
  returns \<open>ok = false\<close> and no error.
\<close>

theorem resolve_rejects_unfollowable:
  assumes h: "h = Trim (TrimSpace (Trim (TrimSpace h0) ''<>'')) ''<>''"
    and c: "Contains h ''://''
          \<or> HasPrefix (ToLower pf h) ''mailto:''
          \<or> HasPrefix (fst (splitFragment h)) ''/''
          \<or> HasPrefix (fst (splitFragment h)) [CHR 0x5C, CHR 0x5C]
          \<or> hasDriveLetter (fst (splitFragment h))
          \<or> (Ext (ToLower pf (fst (splitFragment h))) \<noteq> ''.md''
              \<and> Ext (ToLower pf (fst (splitFragment h))) \<noteq> ''.markdown'')"
  shows "resolveFollowableLink pf rootDir currentFilePath h0 = Inr None"
proof -
  have "\<not> isFollowableHref pf (Trim (TrimSpace h0) ''<>'')"
    using c isAbsoluteOrUNCPath_I [of "fst (splitFragment h)" pf]
    unfolding isFollowableHref_def Let_def h [symmetric]
    by (auto simp: Ext_md Ext_markdown)
  then show ?thesis
    by (simp add: resolveFollowableLink_def Let_def)
qed


section \<open>Normalising and decoding the destination\<close>

lemma Trim_decompose:
  "\<exists>pre post. s = pre @ Trim s cutset @ post \<and> set pre \<subseteq> set cutset \<and> set post \<subseteq> set cutset"
proof -
  let ?P = "\<lambda>c. c \<in> set cutset"
  define d where "d = dropWhile ?P s"
  define pre where "pre = takeWhile ?P s"
  define post where "post = rev (takeWhile ?P (rev d))"
  have s: "s = pre @ d" by (simp add: pre_def d_def)
  have "rev d = takeWhile ?P (rev d) @ dropWhile ?P (rev d)" by simp
  then have "rev (rev d) = rev (takeWhile ?P (rev d) @ dropWhile ?P (rev d))" by simp
  then have d: "d = Trim s cutset @ post"
    by (simp add: Trim_def post_def d_def del: takeWhile_dropWhile_id)
  have "set pre \<subseteq> set cutset"
    by (auto simp: pre_def dest: set_takeWhileD)
  moreover have "set post \<subseteq> set cutset"
    by (auto simp: post_def dest: set_takeWhileD)
  ultimately show ?thesis using s d by auto
qed

lemma Trim_ends:
  assumes "Trim s cutset \<noteq> []"
  shows "hd (Trim s cutset) \<notin> set cutset \<and> last (Trim s cutset) \<notin> set cutset"
proof -
  let ?P = "\<lambda>c. c \<in> set cutset"
  define d where "d = dropWhile ?P s"
  define e where "e = dropWhile ?P (rev d)"
  have T: "Trim s cutset = rev e" by (simp add: Trim_def e_def d_def)
  have ene: "e \<noteq> []" using assms T by simp
  have l: "last (rev e) \<notin> set cutset"
    using ene hd_dropWhile [of ?P "rev d"] by (simp add: last_rev e_def)
  have "rev d = takeWhile ?P (rev d) @ e" by (simp add: e_def)
  then have "rev (rev d) = rev (takeWhile ?P (rev d) @ e)" by simp
  then have dd: "d = rev e @ rev (takeWhile ?P (rev d))" by simp
  then have dne: "d \<noteq> []" using ene by auto
  have "hd d = hd (rev e)" using dd ene by (metis hd_append2 rev_is_Nil_conv)
  moreover have "hd d \<notin> set cutset" using dne hd_dropWhile [of ?P s] by (simp add: d_def)
  ultimately show ?thesis using l T by simp
qed

lemma resolvePath_Href:
  "resolvePath pf rootDir cur h path frag = Inr (Some l) \<Longrightarrow>
     Href l = h \<and> Path l = path \<and> Fragment l = frag"
  by (auto simp: resolvePath_def Let_def split: sum.splits option.splits if_splits)

lemma resolveFollowableLink_Some:
  assumes "resolveFollowableLink pf rootDir cur h0 = Inr (Some l)"
  shows "\<exists>path frag. resolvePath pf rootDir cur (Trim (TrimSpace h0) ''<>'') path frag
                        = Inr (Some l)"
  using assms
  by (auto simp: resolveFollowableLink_def Let_def split: if_splits prod.splits)

text \<open>
  Claim C7, as amended. \<open>resolveFollowableLink\<close> trims surrounding white space from the
  href and then removes every leading and every trailing angle bracket, however many
  there are and whether or not they match: what is left is the trimmed href without a
  prefix and a suffix made of angle brackets only, it neither begins nor ends with an
  angle bracket, and it is the \<open>Href\<close> of the link that is returned.
\<close>

theorem href_normalization:
  "(\<exists>pre post. TrimSpace h0 = pre @ Trim (TrimSpace h0) ''<>'' @ post
        \<and> set pre \<subseteq> {CHR ''<'', CHR ''>''} \<and> set post \<subseteq> {CHR ''<'', CHR ''>''})
   \<and> (Trim (TrimSpace h0) ''<>'' \<noteq> [] \<longrightarrow>
         hd (Trim (TrimSpace h0) ''<>'') \<notin> {CHR ''<'', CHR ''>''}
         \<and> last (Trim (TrimSpace h0) ''<>'') \<notin> {CHR ''<'', CHR ''>''})
   \<and> (\<forall>l. resolveFollowableLink pf rootDir currentFilePath h0 = Inr (Some l) \<longrightarrow>
         Href l = Trim (TrimSpace h0) ''<>'')"
proof (intro conjI)
  show "\<exists>pre post. TrimSpace h0 = pre @ Trim (TrimSpace h0) ''<>'' @ post
        \<and> set pre \<subseteq> {CHR ''<'', CHR ''>''} \<and> set post \<subseteq> {CHR ''<'', CHR ''>''}"
    using Trim_decompose [of "TrimSpace h0" "''<>''"] by simp
  show "Trim (TrimSpace h0) ''<>'' \<noteq> [] \<longrightarrow>
         hd (Trim (TrimSpace h0) ''<>'') \<notin> {CHR ''<'', CHR ''>''}
         \<and> last (Trim (TrimSpace h0) ''<>'') \<notin> {CHR ''<'', CHR ''>''}"
    using Trim_ends [of "TrimSpace h0" "''<>''"] by simp
  show "\<forall>l. resolveFollowableLink pf rootDir currentFilePath h0 = Inr (Some l) \<longrightarrow>
         Href l = Trim (TrimSpace h0) ''<>''"
    using resolveFollowableLink_Some resolvePath_Href by blast
qed

text \<open>
  Claim C6. For an href that the classifier accepts and whose path portion is not empty
  and contains a percent sign, \<open>resolveFollowableLink\<close> goes on with the percent-decoded
  path when decoding succeeds and with the raw path when it fails: the result is that
  of the remaining steps on that path, and a link that is returned carries it as its
  \<open>Path\<close>. A decoding failure alone neither rejects the link nor makes an error.
\<close>

theorem resolve_decodes_percent:
  assumes h: "h = Trim (TrimSpace h0) ''<>''"
    and f: "isFollowableHref pf h"
    and p: "path = TrimSpace (fst (splitFragment h))"
    and ne: "path \<noteq> []"
    and pc: "Contains path ''%''"
  shows "resolveFollowableLink pf rootDir currentFilePath h0
           = resolvePath pf rootDir currentFilePath h
               (case PathUnescape path of Some decoded \<Rightarrow> decoded | None \<Rightarrow> path)
               (snd (splitFragment h))
       \<and> (\<forall>l. resolveFollowableLink pf rootDir currentFilePath h0 = Inr (Some l) \<longrightarrow>
             Path l = (case PathUnescape path of Some decoded \<Rightarrow> decoded | None \<Rightarrow> path))"
proof -
  have eq: "resolveFollowableLink pf rootDir currentFilePath h0
           = resolvePath pf rootDir currentFilePath h
               (case PathUnescape path of Some decoded \<Rightarrow> decoded | None \<Rightarrow> path)
               (snd (splitFragment h))"
  proof -
    obtain x1 x2 where sf: "splitFragment (Trim (TrimSpace h0) ''<>'') = (x1, x2)"
      by (cases "splitFragment (Trim (TrimSpace h0) ''<>'')")
    have px: "path = TrimSpace x1" using p h sf by simp
    show ?thesis
      using f ne pc unfolding px h
      by (simp add: resolveFollowableLink_def Let_def sf)
  qed
  show ?thesis
    using eq resolvePath_Href by (metis (no_types, lifting))
qed


section \<open>The registry invariant\<close>

text \<open>
  What the model assumes of the platform: \<open>filepath.Abs\<close> returns absolute paths,
  \<open>filepath.EvalSymlinks\<close> of an absolute path is absolute, and a path that \<open>os.Stat\<close>
  can read can also be evaluated by \<open>filepath.EvalSymlinks\<close>.
\<close>

definition platformContract :: "platform \<Rightarrow> bool" where
  "platformContract pf =
     ((\<forall>p q. fpAbs pf p = Inr q \<longrightarrow> fpIsAbs pf q)
      \<and> (\<forall>p q. fpIsAbs pf p \<longrightarrow> fpEvalSymlinks pf p = Some q \<longrightarrow> fpIsAbs pf q)
      \<and> (\<forall>p. osStat pf p \<noteq> None \<longrightarrow> fpEvalSymlinks pf p \<noteq> None))"

text \<open>
  The evaluated root: the root directory made absolute, with its symbolic links
  evaluated when that succeeds (the resolver keeps the absolute form otherwise).
\<close>

definition evaluatedRoot :: "platform \<Rightarrow> string \<Rightarrow> string option" where
  "evaluatedRoot pf rootDir =
     (case fpAbs pf rootDir of
        Inl e \<Rightarrow> None
      | Inr rootAbs \<Rightarrow>
          Some (case fpEvalSymlinks pf rootAbs of
                  Some rootEval \<Rightarrow> rootEval
                | None \<Rightarrow> rootAbs))"

definition resolvedInsideRoot :: "platform \<Rightarrow> string \<Rightarrow> followableLink \<Rightarrow> bool" where
  "resolvedInsideRoot pf rootDir l =
     (fpIsAbs pf (ResolvedPath l)
      \<and> (\<exists>cand. fpIsAbs pf cand \<and> fpEvalSymlinks pf cand = Some (ResolvedPath l))
      \<and> osStat pf (ResolvedPath l) = Some RegularFile
      \<and> (\<exists>root rel. evaluatedRoot pf rootDir = Some root
            \<and> fpRel pf root (ResolvedPath l) = Some rel
            \<and> rel \<noteq> ''..'' \<and> \<not> HasPrefix rel (''..'' @ [pathSeparator pf])))"

definition registryInvariant :: "platform \<Rightarrow> string \<Rightarrow> followableLink \<Rightarrow> bool" where
  "registryInvariant pf rootDir l =
     (resolvedInsideRoot pf rootDir l \<and> TrimSpace (Label l) \<noteq> [])"

lemma resolvePath_inside:
  assumes c: "platformContract pf"
    and r: "resolvePath pf rootDir cur h path frag = Inr (Some l)"
  shows "resolvedInsideRoot pf rootDir l"
proof -
  let ?resolved = "fpClean pf (fpJoin pf (fpDir pf cur) path)"
  from r obtain rootAbs0 where ra: "fpAbs pf rootDir = Inr rootAbs0"
    by (auto simp: resolvePath_def Let_def split: sum.splits)
  from r ra obtain resAbs0 where rs: "fpAbs pf ?resolved = Inr resAbs0"
    by (auto simp: resolvePath_def Let_def split: sum.splits)
  define rootAbs where
    "rootAbs = (case fpEvalSymlinks pf rootAbs0 of Some e \<Rightarrow> e | None \<Rightarrow> rootAbs0)"
  define resAbs where
    "resAbs = (case fpEvalSymlinks pf resAbs0 of Some e \<Rightarrow> e | None \<Rightarrow> resAbs0)"
  from r ra rs obtain rel where rel: "fpRel pf rootAbs resAbs = Some rel"
    and nesc: "rel \<noteq> ''..''" "\<not> HasPrefix rel (''..'' @ [pathSeparator pf])"
    and st: "osStat pf resAbs = Some RegularFile"
    and rp: "ResolvedPath l = resAbs"
    by (auto simp: resolvePath_def Let_def rootAbs_def resAbs_def
        split: option.splits if_splits)
  have abs0: "fpIsAbs pf resAbs0" using c rs by (auto simp: platformContract_def)
  from c st have "fpEvalSymlinks pf resAbs \<noteq> None" by (auto simp: platformContract_def)
  have ev: "fpEvalSymlinks pf resAbs0 = Some resAbs"
  proof (cases "fpEvalSymlinks pf resAbs0")
    case None
    then have "resAbs = resAbs0" by (simp add: resAbs_def)
    with c st None show ?thesis by (auto simp: platformContract_def)
  next
    case (Some e)
    then show ?thesis by (simp add: resAbs_def)
  qed
  have abs: "fpIsAbs pf resAbs" using c abs0 ev by (auto simp: platformContract_def)
  have root: "evaluatedRoot pf rootDir = Some rootAbs"
    by (simp add: evaluatedRoot_def ra rootAbs_def)
  show ?thesis
    unfolding resolvedInsideRoot_def rp
    using abs abs0 ev st root rel nesc by blast
qed

lemma resolveFollowableLink_inside:
  assumes "platformContract pf"
    and "resolveFollowableLink pf rootDir cur h0 = Inr (Some l)"
  shows "resolvedInsideRoot pf rootDir l"
  using resolveFollowableLink_Some [OF assms(2)] resolvePath_inside [OF assms(1)] by blast

lemma resolvedInsideRoot_Label [simp]:
  "resolvedInsideRoot pf rootDir (l\<lparr>Label := x\<rparr>) = resolvedInsideRoot pf rootDir l"
  by (simp add: resolvedInsideRoot_def)

lemma resolveLinks_invariant:
  "platformContract pf \<Longrightarrow> resolveLinks pf rootDir cur raw out = Inr reg \<Longrightarrow>
   \<forall>l \<in> set out. registryInvariant pf rootDir l \<Longrightarrow>
   \<forall>l \<in> set reg. registryInvariant pf rootDir l"
proof (induction raw arbitrary: out)
  case Nil
  then show ?case by simp
next
  case (Cons r raw)
  show ?case
  proof (cases "resolveFollowableLink pf rootDir cur (href r)")
    case (Inl e)
    with Cons.prems show ?thesis by simp
  next
    case (Inr res)
    show ?thesis
    proof (cases res)
      case None
      with Inr Cons show ?thesis by simp
    next
      case (Some link)
      show ?thesis
      proof (cases "TrimSpace (label r) = []")
        case True
        with Inr Some Cons show ?thesis by simp
      next
        case False
        have "resolvedInsideRoot pf rootDir link"
          using resolveFollowableLink_inside [OF Cons.prems(1)] Inr Some by simp
        then have "\<forall>l \<in> set (out @ [link\<lparr>Label := label r\<rparr>]). registryInvariant pf rootDir l"
          using Cons.prems(3) False by (simp add: registryInvariant_def)
        moreover have "resolveLinks pf rootDir cur raw (out @ [link\<lparr>Label := label r\<rparr>])
                         = Inr reg"
          using Cons.prems(2) Inr Some False by simp
        ultimately show ?thesis using Cons.IH [OF Cons.prems(1)] by blast
      qed
    qed
  qed
qed

text \<open>
  Claim C1. On a platform that keeps the contract above, for every root directory,
  current file and markdown source, every link that \<open>followableLinksForDocument\<close>
  returns has a \<open>ResolvedPath\<close> that is absolute, is the result of evaluating the
  symbolic links of an absolute path, is a regular file for \<open>os.Stat\<close>, and lies inside
  the evaluated root: its path relative to the evaluated root is neither \<open>..\<close> nor begins
  with \<open>..\<close> and the path separator; and its \<open>Label\<close> is not empty after trimming. So a
  destination that resolves outside the evaluated root, by \<open>..\<close> or through a symbolic
  link, is never in the result.
\<close>

theorem registry_links_inside_root:
  assumes "platformContract pf"
    and "followableLinksForDocument pf rootDir currentFilePath markdown = Inr reg"
    and "l \<in> set reg"
  shows "fpIsAbs pf (ResolvedPath l)
       \<and> (\<exists>cand. fpIsAbs pf cand \<and> fpEvalSymlinks pf cand = Some (ResolvedPath l))
       \<and> osStat pf (ResolvedPath l) = Some RegularFile
       \<and> (\<exists>root rel. evaluatedRoot pf rootDir = Some root
            \<and> fpRel pf root (ResolvedPath l) = Some rel
            \<and> rel \<noteq> ''..'' \<and> \<not> HasPrefix rel (''..'' @ [pathSeparator pf]))
       \<and> TrimSpace (Label l) \<noteq> []"
proof -
  have "\<forall>l \<in> set reg. registryInvariant pf rootDir l"
    using resolveLinks_invariant [OF assms(1), of rootDir currentFilePath _ "[]" reg] assms(2)
    by (simp add: followableLinksForDocument_def)
  with assms(3) show ?thesis
    by (simp add: registryInvariant_def resolvedInsideRoot_def)
qed

section \<open>A sample platform\<close>

text \<open>
  To run the model on examples: the path functions of a Unix system, written on the
  list of path elements, over a small file system with a root directory, a directory
  outside it, and a symbolic link \<open>escape\<close> inside the root that points outside.
\<close>

fun splitOn :: "char \<Rightarrow> string \<Rightarrow> string list" where
  "splitOn c [] = [[]]"
| "splitOn c (x # xs) =
     (if x = c then [] # splitOn c xs
      else (case splitOn c xs of
              w # ws \<Rightarrow> (x # w) # ws
            | [] \<Rightarrow> [[x]]))"

fun joinWith :: "char \<Rightarrow> string list \<Rightarrow> string" where
  "joinWith c [] = []"
| "joinWith c [w] = w"
| "joinWith c (w # ws) = w @ c # joinWith c ws"

fun cleanStep :: "bool \<Rightarrow> string list \<Rightarrow> string \<Rightarrow> string list" where
  "cleanStep rooted st e =
     (if e = [] \<or> e = ''.'' then st
      else if e = ''..'' then
        (case st of
           [] \<Rightarrow> if rooted then [] else [''..'']
         | x # xs \<Rightarrow> if x = ''..'' then ''..'' # x # xs else xs)
      else e # st)"

definition unixClean :: "string \<Rightarrow> string" where
  "unixClean p =
     (if p = [] then ''.''
      else
        let rooted = (hd p = CHR ''/'');
            body = joinWith (CHR ''/'') (rev (foldl (cleanStep rooted) [] (splitOn (CHR ''/'') p)))
        in if rooted then CHR ''/'' # body else if body = [] then ''.'' else body)"

definition unixJoin :: "string \<Rightarrow> string \<Rightarrow> string" where
  "unixJoin a b =
     (if a \<noteq> [] then unixClean (a @ CHR ''/'' # b)
      else if b \<noteq> [] then unixClean b
      else [])"

definition unixDir :: "string \<Rightarrow> string" where
  "unixDir p = unixClean (rev (dropWhile (\<lambda>c. c \<noteq> CHR ''/'') (rev p)))"

definition unixAbs :: "string \<Rightarrow> string \<Rightarrow> string + string" where
  "unixAbs wd p = Inr (if HasPrefix p ''/'' then unixClean p else unixJoin wd p)"

fun dropCommon :: "string list \<Rightarrow> string list \<Rightarrow> string list \<times> string list" where
  "dropCommon (b # bs) (t # ts) = (if b = t then dropCommon bs ts else (b # bs, t # ts))"
| "dropCommon bs ts = (bs, ts)"

definition unixRel :: "string \<Rightarrow> string \<Rightarrow> string option" where
  "unixRel basepath targpath =
     (let base = unixClean basepath;
          targ = unixClean targpath
      in
      if targ = base then Some ''.''
      else
        let base = (if base = ''.'' then [] else base) in
        if HasPrefix base ''/'' \<noteq> HasPrefix targ ''/'' then None
        else
          let (bs, ts) = dropCommon (splitOn (CHR ''/'') base) (splitOn (CHR ''/'') targ);
              bs = (if bs = [[]] then [] else bs);
              ts = (if ts = [[]] then [] else ts)
          in
          if bs \<noteq> [] \<and> ts \<noteq> [] \<and> hd bs = ''..'' then None
          else Some (joinWith (CHR ''/'') (replicate (length bs) ''..'' @ ts)))"

definition sampleEvalSymlinks :: "string \<Rightarrow> string option" where
  "sampleEvalSymlinks =
     map_of
       [(''/base/root'', ''/base/root''),
        (''/base/root/current.md'', ''/base/root/current.md''),
        (''/base/root/docs'', ''/base/root/docs''),
        (''/base/root/docs/target.md'', ''/base/root/docs/target.md''),
        (''/base/root/docs/SPACE NAME.md'', ''/base/root/docs/SPACE NAME.md''),
        (''/base/root/docs/100%.md'', ''/base/root/docs/100%.md''),
        (''/base/root/docs/dir.md'', ''/base/root/docs/dir.md''),
        (''/base/root/escape'', ''/base/outside''),
        (''/base/root/escape/outside.md'', ''/base/outside/outside.md''),
        (''/base/outside'', ''/base/outside''),
        (''/base/outside/outside.md'', ''/base/outside/outside.md'')]"

definition sampleStat :: "string \<Rightarrow> fileMode option" where
  "sampleStat =
     map_of
       [(''/base/root'', Directory),
        (''/base/root/current.md'', RegularFile),
        (''/base/root/docs'', Directory),
        (''/base/root/docs/target.md'', RegularFile),
        (''/base/root/docs/SPACE NAME.md'', RegularFile),
        (''/base/root/docs/100%.md'', RegularFile),
        (''/base/root/docs/dir.md'', Directory),
        (''/base/root/escape'', Directory),
        (''/base/root/escape/outside.md'', RegularFile),
        (''/base/outside'', Directory),
        (''/base/outside/outside.md'', RegularFile)]"

definition sampleMarkdown :: string where
  "sampleMarkdown = ''[Target](docs/target.md) [Up](../outside/outside.md) [Sym](escape/outside.md) [](docs/target.md)''"

definition sampleParse :: "string \<Rightarrow> node" where
  "sampleParse md =
     (if md = sampleMarkdown then
        OtherNode [OtherNode
          [LinkNode ''docs/target.md'' [TextNode ''Target''], TextNode '' '',
           LinkNode ''../outside/outside.md'' [TextNode ''Up''], TextNode '' '',
           LinkNode ''escape/outside.md'' [TextNode ''Sym''], TextNode '' '',
           LinkNode ''docs/target.md'' []]]
      else OtherNode [])"

definition sampleStrip :: "string \<Rightarrow> string \<Rightarrow> string" where
  "sampleStrip p root = (if prefix (root @ ''/'') p then drop (length root + 1) p else p)"

definition samplePlatform :: platform where
  "samplePlatform =
     \<lparr>unicodeToLower = (\<lambda>r. r), pathSeparator = CHR ''/'',
      fpIsAbs = (\<lambda>p. HasPrefix p ''/''), fpDir = unixDir, fpJoin = unixJoin,
      fpClean = unixClean, fpAbs = unixAbs ''/base/root'',
      fpEvalSymlinks = sampleEvalSymlinks, fpRel = unixRel, osStat = sampleStat,
      parseMarkdown = sampleParse, stripAbsolutePath = sampleStrip\<rparr>"


definition targetLink :: followableLink where
  "targetLink = \<lparr>Href = ''docs/target.md'', Path = ''docs/target.md'', Fragment = [],
     Label = ''Target'', ResolvedPath = ''/base/root/docs/target.md'',
     ResolvedNote = ''docs/target.md''\<rparr>"

lemma unixClean_rooted: "HasPrefix p ''/'' \<Longrightarrow> HasPrefix (unixClean p) ''/''"
  by (cases p) (auto simp: HasPrefix_def unixClean_def Let_def)

lemma samplePlatform_contract: "platformContract samplePlatform"
proof -
  have a: "\<And>p q. unixAbs ''/base/root'' p = Inr q \<Longrightarrow> HasPrefix q ''/''"
  proof -
    fix p q assume "unixAbs ''/base/root'' p = Inr q"
    then have q: "q = (if HasPrefix p ''/'' then unixClean p else unixJoin ''/base/root'' p)"
      by (simp add: unixAbs_def)
    have "HasPrefix (unixJoin ''/base/root'' p) ''/''"
      using unixClean_rooted [of "''/base/root'' @ CHR ''/'' # p"]
      by (simp add: unixJoin_def HasPrefix_def)
    then show "HasPrefix q ''/''" using q unixClean_rooted [of p] by simp
  qed
  have b: "\<And>p q. sampleEvalSymlinks p = Some q \<Longrightarrow> HasPrefix q ''/''"
    by (auto simp: sampleEvalSymlinks_def HasPrefix_def split: if_splits)
  have c: "\<And>p. sampleStat p \<noteq> None \<Longrightarrow> sampleEvalSymlinks p \<noteq> None"
    by (simp add: sampleStat_def sampleEvalSymlinks_def split: if_splits)
  show ?thesis
    unfolding platformContract_def using a b c by (simp add: samplePlatform_def)
qed

lemma sample_fields:
  "unicodeToLower samplePlatform = (\<lambda>r. r)"
  "pathSeparator samplePlatform = CHR ''/''"
  "fpIsAbs samplePlatform = (\<lambda>p. HasPrefix p ''/'')"
  "fpDir samplePlatform = unixDir"
  "fpJoin samplePlatform = unixJoin"
  "fpClean samplePlatform = unixClean"
  "fpAbs samplePlatform = unixAbs ''/base/root''"
  "fpEvalSymlinks samplePlatform = sampleEvalSymlinks"
  "fpRel samplePlatform = unixRel"
  "osStat samplePlatform = sampleStat"
  "parseMarkdown samplePlatform = sampleParse"
  "stripAbsolutePath samplePlatform = sampleStrip"
  by (simp_all add: samplePlatform_def)

lemmas classify_eval =
  isFollowableHref_def Let_def Contains_def HasPrefix_def HasSuffix_def suffix_to_prefix
  splitFragment_def Cut_def isAbsoluteOrUNCPath_def byte_def ToLower_def asciiLower_def
  Trim_def sample_fields

lemma cur_dir: "unixDir ''/base/root/current.md'' = ''/base/root''"
  by (simp add: unixDir_def unixClean_def Let_def)

lemma root_clean: "unixClean ''/base/root'' = ''/base/root''"
  by (simp add: unixClean_def Let_def)

lemma root_abs: "unixAbs ''/base/root'' ''/base/root'' = Inr ''/base/root''"
  by (simp add: unixAbs_def HasPrefix_def root_clean)

lemma root_eval: "sampleEvalSymlinks ''/base/root'' = Some ''/base/root''"
  by (simp add: sampleEvalSymlinks_def)

lemma tgt_trim: "TrimSpace ''docs/target.md'' = ''docs/target.md''"
  by (simp add: go_eval)

lemma tgt_follow: "isFollowableHref samplePlatform ''docs/target.md''"
  by (simp add: classify_eval tgt_trim)

lemma tgt_join: "unixJoin ''/base/root'' ''docs/target.md'' = ''/base/root/docs/target.md''"
  by (simp add: unixJoin_def unixClean_def Let_def)

lemma tgt_clean: "unixClean ''/base/root/docs/target.md'' = ''/base/root/docs/target.md''"
  by (simp add: unixClean_def Let_def)

lemma tgt_abs: "unixAbs ''/base/root'' ''/base/root/docs/target.md'' = Inr ''/base/root/docs/target.md''"
  by (simp add: unixAbs_def HasPrefix_def tgt_clean)

lemma tgt_eval: "sampleEvalSymlinks ''/base/root/docs/target.md'' = Some ''/base/root/docs/target.md''"
  by (simp add: sampleEvalSymlinks_def)

lemma tgt_rel: "unixRel ''/base/root'' ''/base/root/docs/target.md'' = Some ''docs/target.md''"
  by (simp add: unixRel_def root_clean tgt_clean Let_def HasPrefix_def)

lemma tgt_stat: "sampleStat ''/base/root/docs/target.md'' = Some RegularFile"
  by (simp add: sampleStat_def)

lemma tgt_strip: "sampleStrip ''/base/root/docs/target.md'' ''/base/root'' = ''docs/target.md''"
  by (simp add: sampleStrip_def)

lemma tgt_path: "resolvePath samplePlatform ''/base/root'' ''/base/root/current.md''
     ''docs/target.md'' ''docs/target.md'' []
     = Inr (Some \<lparr>Href = ''docs/target.md'', Path = ''docs/target.md'', Fragment = [], Label = [],
       ResolvedPath = ''/base/root/docs/target.md'', ResolvedNote = ''docs/target.md''\<rparr>)"
  by (simp add: resolvePath_def Let_def sample_fields cur_dir root_abs root_eval
      tgt_join tgt_clean tgt_abs tgt_eval tgt_rel tgt_stat tgt_strip HasPrefix_def)

lemma tgt_resolve: "resolveFollowableLink samplePlatform ''/base/root'' ''/base/root/current.md'' ''docs/target.md''
     = Inr (Some \<lparr>Href = ''docs/target.md'', Path = ''docs/target.md'', Fragment = [], Label = [],
       ResolvedPath = ''/base/root/docs/target.md'', ResolvedNote = ''docs/target.md''\<rparr>)"
  by (simp add: resolveFollowableLink_def Let_def tgt_trim tgt_follow tgt_path
      Trim_def splitFragment_def Cut_def Contains_def)

lemma up_trim: "TrimSpace ''../outside/outside.md'' = ''../outside/outside.md''"
  by (simp add: go_eval)

lemma up_follow: "isFollowableHref samplePlatform ''../outside/outside.md''"
  by (simp add: classify_eval up_trim)

lemma up_join: "unixJoin ''/base/root'' ''../outside/outside.md'' = ''/base/outside/outside.md''"
  by (simp add: unixJoin_def unixClean_def Let_def)

lemma up_clean: "unixClean ''/base/outside/outside.md'' = ''/base/outside/outside.md''"
  by (simp add: unixClean_def Let_def)

lemma up_abs: "unixAbs ''/base/root'' ''/base/outside/outside.md'' = Inr ''/base/outside/outside.md''"
  by (simp add: unixAbs_def HasPrefix_def up_clean)

lemma up_eval: "sampleEvalSymlinks ''/base/outside/outside.md'' = Some ''/base/outside/outside.md''"
  by (simp add: sampleEvalSymlinks_def)

lemma up_rel: "unixRel ''/base/root'' ''/base/outside/outside.md'' = Some ''../outside/outside.md''"
  by (simp add: unixRel_def root_clean up_clean Let_def HasPrefix_def)

lemma up_path: "resolvePath samplePlatform ''/base/root'' ''/base/root/current.md''
     ''../outside/outside.md'' ''../outside/outside.md'' []
     = Inr None"
  by (simp add: resolvePath_def Let_def sample_fields cur_dir root_abs root_eval
      up_join up_clean up_abs up_eval up_rel HasPrefix_def)

lemma up_resolve: "resolveFollowableLink samplePlatform ''/base/root'' ''/base/root/current.md'' ''../outside/outside.md''
     = Inr None"
  by (simp add: resolveFollowableLink_def Let_def up_trim up_follow up_path
      Trim_def splitFragment_def Cut_def Contains_def)

lemma sym_trim: "TrimSpace ''escape/outside.md'' = ''escape/outside.md''"
  by (simp add: go_eval)

lemma sym_follow: "isFollowableHref samplePlatform ''escape/outside.md''"
  by (simp add: classify_eval sym_trim)

lemma sym_join: "unixJoin ''/base/root'' ''escape/outside.md'' = ''/base/root/escape/outside.md''"
  by (simp add: unixJoin_def unixClean_def Let_def)

lemma sym_clean: "unixClean ''/base/root/escape/outside.md'' = ''/base/root/escape/outside.md''"
  by (simp add: unixClean_def Let_def)

lemma sym_abs: "unixAbs ''/base/root'' ''/base/root/escape/outside.md'' = Inr ''/base/root/escape/outside.md''"
  by (simp add: unixAbs_def HasPrefix_def sym_clean)

lemma sym_eval: "sampleEvalSymlinks ''/base/root/escape/outside.md'' = Some ''/base/outside/outside.md''"
  by (simp add: sampleEvalSymlinks_def)

lemma sym_clean2: "unixClean ''/base/outside/outside.md'' = ''/base/outside/outside.md''"
  by (simp add: unixClean_def Let_def)

lemma sym_rel: "unixRel ''/base/root'' ''/base/outside/outside.md'' = Some ''../outside/outside.md''"
  by (simp add: unixRel_def root_clean sym_clean2 Let_def HasPrefix_def)

lemma sym_path: "resolvePath samplePlatform ''/base/root'' ''/base/root/current.md''
     ''escape/outside.md'' ''escape/outside.md'' []
     = Inr None"
  by (simp add: resolvePath_def Let_def sample_fields cur_dir root_abs root_eval
      sym_join sym_clean sym_abs sym_eval sym_rel HasPrefix_def)

lemma sym_resolve: "resolveFollowableLink samplePlatform ''/base/root'' ''/base/root/current.md'' ''escape/outside.md''
     = Inr None"
  by (simp add: resolveFollowableLink_def Let_def sym_trim sym_follow sym_path
      Trim_def splitFragment_def Cut_def Contains_def)

lemma spc_trim: "TrimSpace ''docs/SPACE%20NAME.md'' = ''docs/SPACE%20NAME.md''"
  by (simp add: go_eval)

lemma spc_follow: "isFollowableHref samplePlatform ''docs/SPACE%20NAME.md''"
  by (simp add: classify_eval spc_trim)

lemma spc_unesc: "PathUnescape ''docs/SPACE%20NAME.md'' = Some ''docs/SPACE NAME.md''"
  by (simp add: PathUnescape_def ishex_def unhex_def byte_def char_of_def bit_Suc_0_iff)

lemma spc_join: "unixJoin ''/base/root'' ''docs/SPACE NAME.md'' = ''/base/root/docs/SPACE NAME.md''"
  by (simp add: unixJoin_def unixClean_def Let_def)

lemma spc_clean: "unixClean ''/base/root/docs/SPACE NAME.md'' = ''/base/root/docs/SPACE NAME.md''"
  by (simp add: unixClean_def Let_def)

lemma spc_abs: "unixAbs ''/base/root'' ''/base/root/docs/SPACE NAME.md'' = Inr ''/base/root/docs/SPACE NAME.md''"
  by (simp add: unixAbs_def HasPrefix_def spc_clean)

lemma spc_eval: "sampleEvalSymlinks ''/base/root/docs/SPACE NAME.md'' = Some ''/base/root/docs/SPACE NAME.md''"
  by (simp add: sampleEvalSymlinks_def)

lemma spc_rel: "unixRel ''/base/root'' ''/base/root/docs/SPACE NAME.md'' = Some ''docs/SPACE NAME.md''"
  by (simp add: unixRel_def root_clean spc_clean Let_def HasPrefix_def)

lemma spc_stat: "sampleStat ''/base/root/docs/SPACE NAME.md'' = Some RegularFile"
  by (simp add: sampleStat_def)

lemma spc_strip: "sampleStrip ''/base/root/docs/SPACE NAME.md'' ''/base/root'' = ''docs/SPACE NAME.md''"
  by (simp add: sampleStrip_def)

lemma spc_path: "resolvePath samplePlatform ''/base/root'' ''/base/root/current.md''
     ''docs/SPACE%20NAME.md'' ''docs/SPACE NAME.md'' []
     = Inr (Some \<lparr>Href = ''docs/SPACE%20NAME.md'', Path = ''docs/SPACE NAME.md'', Fragment = [], Label = [],
       ResolvedPath = ''/base/root/docs/SPACE NAME.md'', ResolvedNote = ''docs/SPACE NAME.md''\<rparr>)"
  by (simp add: resolvePath_def Let_def sample_fields cur_dir root_abs root_eval
      spc_join spc_clean spc_abs spc_eval spc_rel spc_stat spc_strip HasPrefix_def)

lemma spc_resolve: "resolveFollowableLink samplePlatform ''/base/root'' ''/base/root/current.md'' ''docs/SPACE%20NAME.md''
     = Inr (Some \<lparr>Href = ''docs/SPACE%20NAME.md'', Path = ''docs/SPACE NAME.md'', Fragment = [], Label = [],
       ResolvedPath = ''/base/root/docs/SPACE NAME.md'', ResolvedNote = ''docs/SPACE NAME.md''\<rparr>)"
  by (simp add: resolveFollowableLink_def Let_def spc_trim spc_follow spc_path spc_unesc
      Trim_def splitFragment_def Cut_def Contains_def)

lemma pct_trim: "TrimSpace ''docs/100%.md'' = ''docs/100%.md''"
  by (simp add: go_eval)

lemma pct_follow: "isFollowableHref samplePlatform ''docs/100%.md''"
  by (simp add: classify_eval pct_trim)

lemma pct_unesc: "PathUnescape ''docs/100%.md'' = None"
  by (simp add: PathUnescape_def ishex_def unhex_def byte_def char_of_def bit_Suc_0_iff)

lemma pct_join: "unixJoin ''/base/root'' ''docs/100%.md'' = ''/base/root/docs/100%.md''"
  by (simp add: unixJoin_def unixClean_def Let_def)

lemma pct_clean: "unixClean ''/base/root/docs/100%.md'' = ''/base/root/docs/100%.md''"
  by (simp add: unixClean_def Let_def)

lemma pct_abs: "unixAbs ''/base/root'' ''/base/root/docs/100%.md'' = Inr ''/base/root/docs/100%.md''"
  by (simp add: unixAbs_def HasPrefix_def pct_clean)

lemma pct_eval: "sampleEvalSymlinks ''/base/root/docs/100%.md'' = Some ''/base/root/docs/100%.md''"
  by (simp add: sampleEvalSymlinks_def)

lemma pct_rel: "unixRel ''/base/root'' ''/base/root/docs/100%.md'' = Some ''docs/100%.md''"
  by (simp add: unixRel_def root_clean pct_clean Let_def HasPrefix_def)

lemma pct_stat: "sampleStat ''/base/root/docs/100%.md'' = Some RegularFile"
  by (simp add: sampleStat_def)

lemma pct_strip: "sampleStrip ''/base/root/docs/100%.md'' ''/base/root'' = ''docs/100%.md''"
  by (simp add: sampleStrip_def)

lemma pct_path: "resolvePath samplePlatform ''/base/root'' ''/base/root/current.md''
     ''docs/100%.md'' ''docs/100%.md'' []
     = Inr (Some \<lparr>Href = ''docs/100%.md'', Path = ''docs/100%.md'', Fragment = [], Label = [],
       ResolvedPath = ''/base/root/docs/100%.md'', ResolvedNote = ''docs/100%.md''\<rparr>)"
  by (simp add: resolvePath_def Let_def sample_fields cur_dir root_abs root_eval
      pct_join pct_clean pct_abs pct_eval pct_rel pct_stat pct_strip HasPrefix_def)

lemma pct_resolve: "resolveFollowableLink samplePlatform ''/base/root'' ''/base/root/current.md'' ''docs/100%.md''
     = Inr (Some \<lparr>Href = ''docs/100%.md'', Path = ''docs/100%.md'', Fragment = [], Label = [],
       ResolvedPath = ''/base/root/docs/100%.md'', ResolvedNote = ''docs/100%.md''\<rparr>)"
  by (simp add: resolveFollowableLink_def Let_def pct_trim pct_follow pct_path pct_unesc
      Trim_def splitFragment_def Cut_def Contains_def)

lemma ang_trim: "TrimSpace '' <<docs/target.md>> '' = ''<<docs/target.md>>''"
  by (simp add: go_eval)

lemma ang_trim2: "TrimSpace ''docs/target.md'' = ''docs/target.md''"
  by (simp add: go_eval)

lemma ang_follow: "isFollowableHref samplePlatform ''docs/target.md''"
  by (simp add: classify_eval ang_trim ang_trim2)

lemma ang_join: "unixJoin ''/base/root'' ''docs/target.md'' = ''/base/root/docs/target.md''"
  by (simp add: unixJoin_def unixClean_def Let_def)

lemma ang_clean: "unixClean ''/base/root/docs/target.md'' = ''/base/root/docs/target.md''"
  by (simp add: unixClean_def Let_def)

lemma ang_abs: "unixAbs ''/base/root'' ''/base/root/docs/target.md'' = Inr ''/base/root/docs/target.md''"
  by (simp add: unixAbs_def HasPrefix_def ang_clean)

lemma ang_eval: "sampleEvalSymlinks ''/base/root/docs/target.md'' = Some ''/base/root/docs/target.md''"
  by (simp add: sampleEvalSymlinks_def)

lemma ang_rel: "unixRel ''/base/root'' ''/base/root/docs/target.md'' = Some ''docs/target.md''"
  by (simp add: unixRel_def root_clean ang_clean Let_def HasPrefix_def)

lemma ang_stat: "sampleStat ''/base/root/docs/target.md'' = Some RegularFile"
  by (simp add: sampleStat_def)

lemma ang_strip: "sampleStrip ''/base/root/docs/target.md'' ''/base/root'' = ''docs/target.md''"
  by (simp add: sampleStrip_def)

lemma ang_path: "resolvePath samplePlatform ''/base/root'' ''/base/root/current.md''
     ''docs/target.md'' ''docs/target.md'' []
     = Inr (Some \<lparr>Href = ''docs/target.md'', Path = ''docs/target.md'', Fragment = [], Label = [],
       ResolvedPath = ''/base/root/docs/target.md'', ResolvedNote = ''docs/target.md''\<rparr>)"
  by (simp add: resolvePath_def Let_def sample_fields cur_dir root_abs root_eval
      ang_join ang_clean ang_abs ang_eval ang_rel ang_stat ang_strip HasPrefix_def)

lemma ang_resolve: "resolveFollowableLink samplePlatform ''/base/root'' ''/base/root/current.md'' '' <<docs/target.md>> ''
     = Inr (Some \<lparr>Href = ''docs/target.md'', Path = ''docs/target.md'', Fragment = [], Label = [],
       ResolvedPath = ''/base/root/docs/target.md'', ResolvedNote = ''docs/target.md''\<rparr>)"
  by (simp add: resolveFollowableLink_def Let_def ang_trim ang_trim2 ang_follow ang_path
      Trim_def splitFragment_def Cut_def Contains_def)

lemma url_trim: "TrimSpace ''https://example.com/docs/target.md'' = ''https://example.com/docs/target.md''"
  by (simp add: go_eval)

lemma url_norm: "Trim (TrimSpace (Trim (TrimSpace ''https://example.com/docs/target.md'') ''<>'')) ''<>'' = ''https://example.com/docs/target.md''"
  by (simp add: Trim_def url_trim)

lemma mail_trim: "TrimSpace ''<MailTo:docs/target.md>'' = ''<MailTo:docs/target.md>''"
  by (simp add: go_eval)

lemma mail_trim2: "TrimSpace ''MailTo:docs/target.md'' = ''MailTo:docs/target.md''"
  by (simp add: go_eval)

lemma mail_norm: "Trim (TrimSpace (Trim (TrimSpace ''<MailTo:docs/target.md>'') ''<>'')) ''<>'' = ''MailTo:docs/target.md''"
  by (simp add: Trim_def mail_trim mail_trim2)

lemma abs_trim: "TrimSpace ''/base/root/docs/target.md'' = ''/base/root/docs/target.md''"
  by (simp add: go_eval)

lemma abs_norm: "Trim (TrimSpace (Trim (TrimSpace ''/base/root/docs/target.md'') ''<>'')) ''<>'' = ''/base/root/docs/target.md''"
  by (simp add: Trim_def abs_trim)

lemma txt_trim: "TrimSpace ''docs/target.rtext'' = ''docs/target.rtext''"
  by (simp add: go_eval)

lemma txt_norm: "Trim (TrimSpace (Trim (TrimSpace ''docs/target.rtext'') ''<>'')) ''<>'' = ''docs/target.rtext''"
  by (simp add: Trim_def txt_trim)

lemma lbl_Target: "TrimSpace ''Target'' = ''Target''" by (simp add: go_eval)
lemma lbl_Up: "TrimSpace ''Up'' = ''Up''" by (simp add: go_eval)
lemma lbl_Sym: "TrimSpace ''Sym'' = ''Sym''" by (simp add: go_eval)
lemma lbl_empty: "TrimSpace [] = []" by (simp add: go_eval)

lemma sample_raw:
  "extractRawLinks samplePlatform sampleMarkdown
     = [\<lparr>href = ''docs/target.md'', label = ''Target''\<rparr>,
        \<lparr>href = ''../outside/outside.md'', label = ''Up''\<rparr>,
        \<lparr>href = ''escape/outside.md'', label = ''Sym''\<rparr>,
        \<lparr>href = ''docs/target.md'', label = []\<rparr>]"
  by (simp add: extractRawLinks_def sample_fields sampleParse_def tgt_trim up_trim sym_trim
      lbl_Target lbl_Up lbl_Sym lbl_empty)

lemma sample_links:
  "followableLinksForDocument samplePlatform ''/base/root'' ''/base/root/current.md''
     sampleMarkdown = Inr [targetLink]"
  by (simp add: followableLinksForDocument_def sample_raw tgt_resolve up_resolve sym_resolve
      lbl_Target lbl_Up lbl_Sym lbl_empty targetLink_def)

theorem registry_links_inside_root_witness:
  "platformContract samplePlatform
   \<and> followableLinksForDocument samplePlatform ''/base/root'' ''/base/root/current.md''
         sampleMarkdown = Inr [targetLink]
   \<and> fpIsAbs samplePlatform (ResolvedPath targetLink)
   \<and> osStat samplePlatform (ResolvedPath targetLink) = Some RegularFile
   \<and> TrimSpace (Label targetLink) \<noteq> []"
proof -
  have m: "targetLink \<in> set [targetLink]" by simp
  from registry_links_inside_root [OF samplePlatform_contract sample_links m]
  show ?thesis using samplePlatform_contract sample_links by simp
qed

theorem resolve_rejects_unfollowable_witness:
  "Contains ''https://example.com/docs/target.md'' ''://''
   \<and> resolveFollowableLink samplePlatform ''/base/root'' ''/base/root/current.md''
         ''https://example.com/docs/target.md'' = Inr None
   \<and> HasPrefix (ToLower samplePlatform ''MailTo:docs/target.md'') ''mailto:''
   \<and> resolveFollowableLink samplePlatform ''/base/root'' ''/base/root/current.md''
         ''<MailTo:docs/target.md>'' = Inr None
   \<and> HasPrefix (fst (splitFragment ''/base/root/docs/target.md'')) ''/''
   \<and> resolveFollowableLink samplePlatform ''/base/root'' ''/base/root/current.md''
         ''/base/root/docs/target.md'' = Inr None
   \<and> Ext (ToLower samplePlatform (fst (splitFragment ''docs/target.rtext''))) = ''.rtext''
   \<and> resolveFollowableLink samplePlatform ''/base/root'' ''/base/root/current.md''
         ''docs/target.rtext'' = Inr None"
proof -
  have c1: "Contains ''https://example.com/docs/target.md'' ''://''"
    by (simp add: Contains_def)
  have c2: "HasPrefix (ToLower samplePlatform ''MailTo:docs/target.md'') ''mailto:''"
    by (simp add: classify_eval char_of_def bit_Suc_0_iff)
  have c3: "HasPrefix (fst (splitFragment ''/base/root/docs/target.md'')) ''/''"
    by (simp add: classify_eval)
  have c4: "Ext (ToLower samplePlatform (fst (splitFragment ''docs/target.rtext''))) = ''.rtext''"
    by (simp add: classify_eval Ext_def)
  have r1: "resolveFollowableLink samplePlatform ''/base/root'' ''/base/root/current.md''
         ''https://example.com/docs/target.md'' = Inr None"
    using c1 by (intro resolve_rejects_unfollowable [OF url_norm [symmetric]]) simp
  have r2: "resolveFollowableLink samplePlatform ''/base/root'' ''/base/root/current.md''
         ''<MailTo:docs/target.md>'' = Inr None"
    using c2 by (intro resolve_rejects_unfollowable [OF mail_norm [symmetric]]) simp
  have r3: "resolveFollowableLink samplePlatform ''/base/root'' ''/base/root/current.md''
         ''/base/root/docs/target.md'' = Inr None"
    using c3 by (intro resolve_rejects_unfollowable [OF abs_norm [symmetric]]) simp
  have r4: "resolveFollowableLink samplePlatform ''/base/root'' ''/base/root/current.md''
         ''docs/target.rtext'' = Inr None"
    using c4 by (intro resolve_rejects_unfollowable [OF txt_norm [symmetric]]) simp
  show ?thesis using c1 c2 c3 c4 r1 r2 r3 r4 by (intro conjI)
qed

text \<open>
  The normalisation as the specification words it: one pair of enclosing angle brackets
  is removed, if there is one.
\<close>

definition stripOneAngleLayer :: "string \<Rightarrow> string" where
  "stripOneAngleLayer s =
     (if 2 \<le> length s \<and> hd s = CHR ''<'' \<and> last s = CHR ''>'' then butlast (tl s) else s)"

theorem resolve_decodes_percent_witness:
  "Contains ''docs/SPACE%20NAME.md'' ''%''
   \<and> PathUnescape ''docs/SPACE%20NAME.md'' = Some ''docs/SPACE NAME.md''
   \<and> resolveFollowableLink samplePlatform ''/base/root'' ''/base/root/current.md''
         ''docs/SPACE%20NAME.md''
       = Inr (Some \<lparr>Href = ''docs/SPACE%20NAME.md'', Path = ''docs/SPACE NAME.md'',
           Fragment = [], Label = [], ResolvedPath = ''/base/root/docs/SPACE NAME.md'',
           ResolvedNote = ''docs/SPACE NAME.md''\<rparr>)
   \<and> Contains ''docs/100%.md'' ''%''
   \<and> PathUnescape ''docs/100%.md'' = None
   \<and> resolveFollowableLink samplePlatform ''/base/root'' ''/base/root/current.md''
         ''docs/100%.md''
       = Inr (Some \<lparr>Href = ''docs/100%.md'', Path = ''docs/100%.md'',
           Fragment = [], Label = [], ResolvedPath = ''/base/root/docs/100%.md'',
           ResolvedNote = ''docs/100%.md''\<rparr>)"
proof -
  have h1: "''docs/SPACE%20NAME.md'' = Trim (TrimSpace ''docs/SPACE%20NAME.md'') ''<>''"
    by (simp add: spc_trim Trim_def)
  have p1: "''docs/SPACE%20NAME.md'' = TrimSpace (fst (splitFragment ''docs/SPACE%20NAME.md''))"
    by (simp add: splitFragment_def Cut_def spc_trim)
  have c1: "Contains ''docs/SPACE%20NAME.md'' ''%''" by (simp add: Contains_def)
  have h2: "''docs/100%.md'' = Trim (TrimSpace ''docs/100%.md'') ''<>''"
    by (simp add: pct_trim Trim_def)
  have p2: "''docs/100%.md'' = TrimSpace (fst (splitFragment ''docs/100%.md''))"
    by (simp add: splitFragment_def Cut_def pct_trim)
  have c2: "Contains ''docs/100%.md'' ''%''" by (simp add: Contains_def)
  have f1: "snd (splitFragment ''docs/SPACE%20NAME.md'') = []"
    by (simp add: splitFragment_def Cut_def)
  have f2: "snd (splitFragment ''docs/100%.md'') = []"
    by (simp add: splitFragment_def Cut_def)
  from resolve_decodes_percent [OF h1 spc_follow p1 _ c1, of "''/base/root''"
      "''/base/root/current.md''"]
  have r1: "resolveFollowableLink samplePlatform ''/base/root'' ''/base/root/current.md''
         ''docs/SPACE%20NAME.md''
       = Inr (Some \<lparr>Href = ''docs/SPACE%20NAME.md'', Path = ''docs/SPACE NAME.md'',
           Fragment = [], Label = [], ResolvedPath = ''/base/root/docs/SPACE NAME.md'',
           ResolvedNote = ''docs/SPACE NAME.md''\<rparr>)"
    by (simp add: spc_unesc spc_path f1)
  from resolve_decodes_percent [OF h2 pct_follow p2 _ c2, of "''/base/root''"
      "''/base/root/current.md''"]
  have r2: "resolveFollowableLink samplePlatform ''/base/root'' ''/base/root/current.md''
         ''docs/100%.md''
       = Inr (Some \<lparr>Href = ''docs/100%.md'', Path = ''docs/100%.md'',
           Fragment = [], Label = [], ResolvedPath = ''/base/root/docs/100%.md'',
           ResolvedNote = ''docs/100%.md''\<rparr>)"
    by (simp add: pct_unesc pct_path f2)
  show ?thesis using c1 spc_unesc r1 c2 pct_unesc r2 by (intro conjI)
qed

theorem href_normalization_witness:
  "resolveFollowableLink samplePlatform ''/base/root'' ''/base/root/current.md''
       '' <<docs/target.md>> ''
     = Inr (Some \<lparr>Href = ''docs/target.md'', Path = ''docs/target.md'', Fragment = [],
         Label = [], ResolvedPath = ''/base/root/docs/target.md'',
         ResolvedNote = ''docs/target.md''\<rparr>)
   \<and> Trim (TrimSpace '' <<docs/target.md>> '') ''<>'' = ''docs/target.md''
   \<and> TrimSpace '' <<docs/target.md>> ''
       = ''<<'' @ Trim (TrimSpace '' <<docs/target.md>> '') ''<>'' @ ''>>''"
proof -
  have t: "Trim (TrimSpace '' <<docs/target.md>> '') ''<>'' = ''docs/target.md''"
    by (simp add: ang_trim Trim_def)
  from href_normalization [of "'' <<docs/target.md>> ''" samplePlatform "''/base/root''"
      "''/base/root/current.md''"]
  show ?thesis using ang_resolve t ang_trim by simp
qed

text \<open>
  Claim C7, as stated, fails on a destination in two layers of angle brackets: one layer
  removed would leave \<open><docs/target.md>\<close>, but both layers are removed and the link
  resolves. A single unmatched bracket is removed as well.
\<close>

theorem href_normalization_counterexample:
  "TrimSpace '' <<docs/target.md>> '' = ''<<docs/target.md>>''
   \<and> stripOneAngleLayer ''<<docs/target.md>>'' = ''<docs/target.md>''
   \<and> Trim ''<<docs/target.md>>'' ''<>'' = ''docs/target.md''
   \<and> Trim ''<<docs/target.md>>'' ''<>'' \<noteq> stripOneAngleLayer ''<<docs/target.md>>''
   \<and> Trim ''<docs/target.md'' ''<>'' = ''docs/target.md''
   \<and> resolveFollowableLink samplePlatform ''/base/root'' ''/base/root/current.md''
       '' <<docs/target.md>> ''
     = Inr (Some \<lparr>Href = ''docs/target.md'', Path = ''docs/target.md'', Fragment = [],
         Label = [], ResolvedPath = ''/base/root/docs/target.md'',
         ResolvedNote = ''docs/target.md''\<rparr>)"
  using ang_trim ang_resolve by (simp add: Trim_def stripOneAngleLayer_def)

section \<open>Following a link and going back\<close>

lemma batch_simps [simp]:
  "batch [] = []" "batch (None # cs) = batch cs" "batch (Some c # cs) = c # batch cs"
  by (simp_all add: batch_def)

lemma andThen_simps [simp]:
  "andThen (Inl p) f = Inl p" "andThen (Inr x) f = f x"
  by (simp_all add: andThen_def)

lemma wrapInt_id: "- (2 ^ 63) \<le> x \<Longrightarrow> x < 2 ^ 63 \<Longrightarrow> wrapInt x = x"
  by (simp add: wrapInt_def)

lemma maxYOffset_nonneg: "0 \<le> maxYOffset v"
  by (simp add: maxYOffset_def)

lemma maxYOffset_YOffset [simp]: "maxYOffset (v\<lparr>YOffset := y\<rparr>) = maxYOffset v"
  by (simp add: maxYOffset_def)

lemma splitLines_nonempty: "splitLines s \<noteq> []"
  by (induction s) (auto split: list.splits)

text \<open>Going to the top never panics: the slice it cuts starts at line \<open>0\<close>.\<close>

lemma GotoTop_returns: "GotoTop v = Inr (if AtTop v then v else v\<lparr>YOffset := 0\<rparr>)"
proof (cases "AtTop v")
  case True
  then show ?thesis by (simp add: GotoTop_def)
next
  case False
  have s: "SetYOffset 0 v = v\<lparr>YOffset := 0\<rparr>"
    using maxYOffset_nonneg [of v] by (simp add: SetYOffset_def clamp_def)
  have "\<exists>ls. visibleLines (v\<lparr>YOffset := 0\<rparr>) = Inr ls"
    by (cases "lines v = []") (auto simp add: visibleLines_def clamp_def Let_def)
  with False s show ?thesis by (auto simp add: GotoTop_def Let_def)
qed

lemma GotoTop_AtTop: "GotoTop v = Inr v' \<Longrightarrow> AtTop v'"
  by (auto simp add: GotoTop_returns AtTop_def split: if_splits)

text \<open>
  Going to the bottom returns when the height is not negative; the height and the number
  of lines are machine integers.
\<close>

lemma maxYOffset_value:
  assumes "0 \<le> Height v" and "Height v < 2 ^ 63" and "int (length (lines v)) < 2 ^ 63"
  shows "maxYOffset v = max 0 (int (length (lines v)) - Height v)"
proof -
  have "wrapInt (int (length (lines v)) - Height v) = int (length (lines v)) - Height v"
    using assms by (intro wrapInt_id) linarith+
  then show ?thesis by (simp add: maxYOffset_def)
qed

lemma GotoBottom_returns:
  assumes h: "0 \<le> Height v" and hb: "Height v < 2 ^ 63"
    and nb: "int (length (lines v)) < 2 ^ 63"
  shows "GotoBottom v = Inr (v\<lparr>YOffset := maxYOffset v\<rparr>)"
proof -
  define n where "n = int (length (lines v))"
  define M where "M = maxYOffset v"
  have M: "M = max 0 (n - Height v)"
    using maxYOffset_value [OF h hb nb] by (simp add: M_def n_def)
  have M0: "0 \<le> M" and Mn: "M \<le> n"
    using h M by (simp_all add: n_def)
  have s: "SetYOffset (maxYOffset v) v = v\<lparr>YOffset := M\<rparr>"
    using M0 by (simp add: SetYOffset_def clamp_def M_def)
  have w: "wrapInt (M + Height v) = M + Height v"
    using h hb nb M by (intro wrapInt_id) (simp_all add: n_def max_def)
  have "\<exists>ls. visibleLines (v\<lparr>YOffset := M\<rparr>) = Inr ls"
  proof (cases "lines v = []")
    case True
    then show ?thesis by (simp add: visibleLines_def)
  next
    case False
    then show ?thesis
      using M0 Mn h by (auto simp add: visibleLines_def clamp_def Let_def w n_def)
  qed
  with s show ?thesis by (auto simp add: GotoBottom_def Let_def M_def)
qed

text \<open>With a negative height and some content, going to the bottom panics.\<close>

lemma GotoBottom_panics:
  assumes h: "Height v < 0" and hb: "- (2 ^ 62) \<le> Height v"
    and ne: "lines v \<noteq> []" and nb: "int (length (lines v)) < 2 ^ 62"
  shows "GotoBottom v = Inl SliceBoundsOutOfRange"
proof -
  define n where "n = int (length (lines v))"
  have n0: "0 < n" using ne by (simp add: n_def)
  have "wrapInt (n - Height v) = n - Height v"
    using h hb nb by (intro wrapInt_id) (simp_all add: n_def)
  then have M: "maxYOffset v = n - Height v"
    using h n0 by (simp add: maxYOffset_def n_def)
  have s: "SetYOffset (maxYOffset v) v = v\<lparr>YOffset := n - Height v\<rparr>"
    using h n0 by (simp add: SetYOffset_def clamp_def M)
  have w: "wrapInt (n - Height v + Height v) = n"
    using nb by (simp add: n_def wrapInt_id)
  have "visibleLines (v\<lparr>YOffset := n - Height v\<rparr>) = Inl SliceBoundsOutOfRange"
    using ne h n0 w by (simp add: visibleLines_def clamp_def Let_def n_def)
  with s show ?thesis by (simp add: GotoBottom_def Let_def)
qed

lemma SetContent_returns:
  assumes "YOffset v \<le> 0"
  shows "SetContent s v = Inr (v\<lparr>lines := splitLines s\<rparr>)"
proof -
  have "1 \<le> int (length (splitLines s))"
    using splitLines_nonempty [of s] by (cases "splitLines s") simp_all
  with assms have "\<not> int (length (splitLines s)) - 1 < YOffset v" by linarith
  then show ?thesis by (simp add: SetContent_def Let_def)
qed

lemma follow_step:
  assumes "0 \<le> focusedLink m" "focusedLink m < int (length (links m))"
    and "ResolvedPath (links m ! nat (focusedLink m)) \<noteq> []"
    and "localPath (currentDocument m) \<noteq> []"
  shows "update pf m KeyEnter
           = Inr (m\<lparr>history := history m @
                       [\<lparr>NavPath = localPath (currentDocument m),
                         NavYOffset = YOffset (viewport m)\<rparr>],
                    focusedLink := - 1,
                    viewport := (if AtTop (viewport m) then viewport m
                                 else (viewport m)\<lparr>YOffset := 0\<rparr>),
                    pendingRestoreYOffset := None\<rparr>,
                  [LoadLocalMarkdown
                     \<lparr>localPath = ResolvedPath (links m ! nat (focusedLink m)),
                      Note = ResolvedNote (links m ! nat (focusedLink m)), Body = []\<rparr>])"
  using assms by (simp add: update_def followFocusedLink_def Let_def GotoTop_returns)

lemma back_step:
  assumes "history m = hs @ [e]" and "common m = Some c"
  shows "update pf m KeyBackspace
           = Inr (m\<lparr>history := hs, focusedLink := - 1,
                    pendingRestoreYOffset := Some (NavYOffset e),
                    viewport := (if AtTop (viewport m) then viewport m
                                 else (viewport m)\<lparr>YOffset := 0\<rparr>)\<rparr>,
                  [LoadLocalMarkdown
                     \<lparr>localPath = NavPath e,
                      Note = stripAbsolutePath pf (NavPath e) (cwd c), Body = []\<rparr>])"
  using assms by (simp add: update_def goBack_def Let_def GotoTop_returns)

lemma rendered_step:
  assumes p: "pendingRestoreYOffset m = Some y" and f: "focusedLink m < 0"
    and t: "YOffset (viewport m) \<le> 0"
    and h: "0 \<le> Height (viewport m)" and hb: "Height (viewport m) < 2 ^ 63"
    and nb: "int (length (splitLines s)) < 2 ^ 63"
    and w: "w = (viewport m)\<lparr>lines := splitLines s, YOffset := y\<rparr>"
  shows "\<exists>m' cs. update pf m (ContentRenderedMsg s) = Inr (m', cs)
           \<and> pendingRestoreYOffset m' = None
           \<and> viewport m' = (if PastBottom w then w\<lparr>YOffset := maxYOffset w\<rparr> else w)"
proof -
  have ap: "applyRenderedContent (m\<lparr>rendered := s\<rparr>)
              = Inr (m\<lparr>rendered := s, viewport := (viewport m)\<lparr>lines := splitLines s\<rparr>\<rparr>)"
    using f t by (simp add: applyRenderedContent_def setContent_def Let_def SetContent_returns)
  have gb: "GotoBottom w = Inr (w\<lparr>YOffset := maxYOffset w\<rparr>)"
    using h hb nb by (intro GotoBottom_returns) (simp_all add: w)
  show ?thesis
    using p gb by (simp add: update_def ap Let_def w [symmetric])
qed


text \<open>
  Claim C8, as amended. In a viewport whose height is not negative, when the user
  follows a focused link with a non-empty \<open>ResolvedPath\<close> from a document whose local path
  is known, the entry of the current path and scroll offset is pushed onto the history,
  the focus index becomes \<open>-1\<close>, the viewport goes to the top, and the target is
  requested; a subsequent back pops exactly that entry, requests a reload of the popped
  path and keeps the saved offset; once the reloaded content is ready the offset is set
  to the saved value, and if that value lies past the bottom of the reloaded content the
  viewport goes to the bottom instead. None of the three steps panics. (The height and
  the number of lines are machine integers, below \<open>2^63\<close>.)
\<close>

theorem follow_then_back_restores_scroll:
  assumes "0 \<le> focusedLink m0" and "focusedLink m0 < int (length (links m0))"
    and "ResolvedPath (links m0 ! nat (focusedLink m0)) \<noteq> []"
    and "localPath (currentDocument m0) \<noteq> []"
    and "common m0 = Some c"
    and "0 \<le> Height (viewport m0)" and "Height (viewport m0) < 2 ^ 63"
    and "int (length (splitLines s)) < 2 ^ 63"
  shows "\<exists>m1 m2 m3 c3.
       update pf m0 KeyEnter
         = Inr (m1, [LoadLocalMarkdown
                      \<lparr>localPath = ResolvedPath (links m0 ! nat (focusedLink m0)),
                       Note = ResolvedNote (links m0 ! nat (focusedLink m0)), Body = []\<rparr>])
     \<and> history m1 = history m0 @ [\<lparr>NavPath = localPath (currentDocument m0),
                                    NavYOffset = YOffset (viewport m0)\<rparr>]
     \<and> focusedLink m1 = - 1 \<and> AtTop (viewport m1)
     \<and> update pf m1 KeyBackspace
         = Inr (m2, [LoadLocalMarkdown
                      \<lparr>localPath = localPath (currentDocument m0),
                       Note = stripAbsolutePath pf (localPath (currentDocument m0)) (cwd c),
                       Body = []\<rparr>])
     \<and> history m2 = history m0 \<and> focusedLink m2 = - 1
     \<and> pendingRestoreYOffset m2 = Some (YOffset (viewport m0))
     \<and> update pf m2 (ContentRenderedMsg s) = Inr (m3, c3)
     \<and> pendingRestoreYOffset m3 = None
     \<and> (let w = (viewport m0)\<lparr>lines := splitLines s\<rparr> in
          viewport m3 = (if PastBottom w then w\<lparr>YOffset := maxYOffset w\<rparr> else w)
        \<and> GotoBottom w = Inr (w\<lparr>YOffset := maxYOffset w\<rparr>)
        \<and> maxYOffset w = max 0 (int (length (splitLines s)) - Height (viewport m0))
        \<and> (\<not> PastBottom w \<longrightarrow> YOffset (viewport m3) = YOffset (viewport m0)))"
proof -
  define e where "e = \<lparr>NavPath = localPath (currentDocument m0),
                         NavYOffset = YOffset (viewport m0)\<rparr>"
  define vt where "vt = (if AtTop (viewport m0) then viewport m0
                         else (viewport m0)\<lparr>YOffset := 0\<rparr>)"
  define m1 where "m1 = m0\<lparr>history := history m0 @ [e], focusedLink := - 1,
                            viewport := vt, pendingRestoreYOffset := None\<rparr>"
  define m2 where "m2 = m1\<lparr>history := history m0, focusedLink := - 1,
                            pendingRestoreYOffset := Some (NavYOffset e),
                            viewport := vt\<rparr>"
  define w where "w = (viewport m0)\<lparr>lines := splitLines s\<rparr>"
  have top: "AtTop vt" by (simp add: vt_def AtTop_def)
  have s1: "update pf m0 KeyEnter
         = Inr (m1, [LoadLocalMarkdown
                      \<lparr>localPath = ResolvedPath (links m0 ! nat (focusedLink m0)),
                       Note = ResolvedNote (links m0 ! nat (focusedLink m0)), Body = []\<rparr>])"
    using follow_step [OF assms(1-4), of pf] by (simp add: m1_def e_def vt_def)
  have h1: "history m1 = history m0 @ [e]" and c1: "common m1 = Some c"
    using assms(5) by (simp_all add: m1_def)
  have v1: "viewport m1 = vt" by (simp add: m1_def)
  have s2: "update pf m1 KeyBackspace
         = Inr (m2, [LoadLocalMarkdown
                      \<lparr>localPath = NavPath e,
                       Note = stripAbsolutePath pf (NavPath e) (cwd c), Body = []\<rparr>])"
    using back_step [OF h1 c1, of pf] top by (simp add: m2_def v1)
  have p2: "pendingRestoreYOffset m2 = Some (YOffset (viewport m0))"
    by (simp add: m2_def e_def)
  have f2: "focusedLink m2 = - 1" by (simp add: m2_def)
  have v2: "viewport m2 = vt" by (simp add: m2_def)
  have t2: "YOffset (viewport m2) \<le> 0" using top by (simp add: v2 AtTop_def)
  have g2: "0 \<le> Height (viewport m2)" "Height (viewport m2) < 2 ^ 63"
    using assms(6,7) by (simp_all add: v2 vt_def)
  have w2: "w = (viewport m2)\<lparr>lines := splitLines s, YOffset := YOffset (viewport m0)\<rparr>"
    by (simp add: w_def v2 vt_def)
  from rendered_step [OF p2 _ t2 g2 assms(8) w2, of pf] f2 obtain m3 c3 where
    s3: "update pf m2 (ContentRenderedMsg s) = Inr (m3, c3)"
    and p3: "pendingRestoreYOffset m3 = None"
    and v3: "viewport m3 = (if PastBottom w then w\<lparr>YOffset := maxYOffset w\<rparr> else w)"
    by auto
  have gb: "GotoBottom w = Inr (w\<lparr>YOffset := maxYOffset w\<rparr>)"
    using assms(6-8) by (intro GotoBottom_returns) (simp_all add: w_def)
  have mx: "maxYOffset w = max 0 (int (length (splitLines s)) - Height (viewport m0))"
    using maxYOffset_value [of w] assms(6-8) by (simp add: w_def)
  have r: "\<not> PastBottom w \<longrightarrow> YOffset (viewport m3) = YOffset (viewport m0)"
    using v3 by (simp add: w_def)
  have a1: "history m1 = history m0 @ [\<lparr>NavPath = localPath (currentDocument m0),
                                    NavYOffset = YOffset (viewport m0)\<rparr>]"
    using h1 by (simp add: e_def)
  have a2: "focusedLink m1 = - 1" "AtTop (viewport m1)"
    using top by (simp_all add: m1_def)
  have s2': "update pf m1 KeyBackspace
         = Inr (m2, [LoadLocalMarkdown
                      \<lparr>localPath = localPath (currentDocument m0),
                       Note = stripAbsolutePath pf (localPath (currentDocument m0)) (cwd c),
                       Body = []\<rparr>])"
    using s2 by (simp add: e_def)
  have h2: "history m2 = history m0" by (simp add: m2_def)
  have fin: "let w = (viewport m0)\<lparr>lines := splitLines s\<rparr> in
          viewport m3 = (if PastBottom w then w\<lparr>YOffset := maxYOffset w\<rparr> else w)
        \<and> GotoBottom w = Inr (w\<lparr>YOffset := maxYOffset w\<rparr>)
        \<and> maxYOffset w = max 0 (int (length (splitLines s)) - Height (viewport m0))
        \<and> (\<not> PastBottom w \<longrightarrow> YOffset (viewport m3) = YOffset (viewport m0))"
    unfolding Let_def w_def [symmetric] using v3 gb mx r by blast
  show ?thesis
    using s1 a1 a2 s2' h2 f2 p2 s3 p3 fin by blast
qed

text \<open>
  Claim C9, as amended. When the user presses back while the history is empty, the
  state of the pager does not change and nothing is reported: no status message is set
  and no command is returned. Cycling the focus, forward or backward, on an empty
  registry does set the status message \<open>No followable links\<close>.
\<close>

theorem back_on_empty_history_is_silent:
  "(history m = [] \<longrightarrow> update pf m KeyBackspace = Inr (m, []))
   \<and> (links m = [] \<longrightarrow>
         update pf m KeyTab
           = Inr (m\<lparr>state := pagerStateStatusMessage,
                    statusMessage := ''No followable links''\<rparr>,
                  [WaitForStatusMessageTimeout])
       \<and> update pf m KeyShiftTab
           = Inr (m\<lparr>state := pagerStateStatusMessage,
                    statusMessage := ''No followable links''\<rparr>,
                  [WaitForStatusMessageTimeout]))"
  by (simp add: update_def showStatusMessage_def)


text \<open>
  A pager on the sample platform: a window of two lines on a text of six, scrolled to
  line \<open>3\<close>, with one link in the registry, focused.
\<close>

definition samplePager :: pagerModel where
  "samplePager =
     \<lparr>common = Some \<lparr>cwd = ''/base/root'', HighPerformancePager = False\<rparr>,
      viewport = \<lparr>Width = 80, Height = 2, YOffset = 3, lines = replicate 6 ''x''\<rparr>,
      state = pagerStateBrowse, statusMessage = [],
      currentDocument = \<lparr>localPath = ''/base/root/current.md'', Note = ''current.md'',
                          Body = []\<rparr>,
      rendered = [], links = [targetLink], focusedLink = 0, history = [],
      pendingRestoreYOffset = None\<rparr>"

definition sixLines :: string where
  "sixLines = [CHR ''a'', CHR 0x0A, CHR ''b'', CHR 0x0A, CHR ''c'', CHR 0x0A, CHR ''d'',
               CHR 0x0A, CHR ''e'', CHR 0x0A, CHR ''f'']"

text \<open>
  The pager gives the viewport the height of the window less that of the status bar
  (\<open>setSize\<close>), which is negative in a window of no lines: the same pager with the height
  \<open>-1\<close>, scrolled to line \<open>5\<close>.
\<close>

definition flatPager :: pagerModel where
  "flatPager =
     samplePager\<lparr>viewport := \<lparr>Width = 80, Height = - 1, YOffset = 5,
                               lines = replicate 6 ''x''\<rparr>\<rparr>"

lemmas pager_eval =
  update_def followFocusedLink_def goBack_def applyRenderedContent_def setContent_def
  showStatusMessage_def SetContent_def GotoTop_def GotoBottom_def SetYOffset_def
  visibleLines_def clamp_def wrapInt_def
  PastBottom_def AtTop_def maxYOffset_def Let_def samplePager_def targetLink_def

lemma sample_run_restores:
  "map_sum id (\<lambda>m. YOffset (viewport m))
     (run samplePlatform samplePager [KeyEnter, KeyBackspace, ContentRenderedMsg sixLines])
     = Inr 3"
  by (simp add: pager_eval sixLines_def)

lemma sample_run_clamps:
  "map_sum id (\<lambda>m. YOffset (viewport m))
     (run samplePlatform samplePager [KeyEnter, KeyBackspace, ContentRenderedMsg ''short''])
     = Inr 0"
  by (simp add: pager_eval)

lemma sample_run_history:
  "map_sum id history (run samplePlatform samplePager [KeyEnter])
     = Inr [\<lparr>NavPath = ''/base/root/current.md'', NavYOffset = 3\<rparr>]"
  by (simp add: pager_eval)

lemma flat_run_history:
  "map_sum id history (run samplePlatform flatPager [KeyEnter])
     = Inr [\<lparr>NavPath = ''/base/root/current.md'', NavYOffset = 5\<rparr>]"
  by (simp add: pager_eval flatPager_def)

lemma flat_run_panics:
  "map_sum id (\<lambda>m. YOffset (viewport m))
     (run samplePlatform flatPager [KeyEnter, KeyBackspace, ContentRenderedMsg ''a''])
     = Inl SliceBoundsOutOfRange"
  by (simp add: pager_eval flatPager_def)


theorem follow_then_back_restores_scroll_witness:
  "0 \<le> focusedLink samplePager
   \<and> focusedLink samplePager < int (length (links samplePager))
   \<and> ResolvedPath (links samplePager ! nat (focusedLink samplePager)) \<noteq> []
   \<and> localPath (currentDocument samplePager) \<noteq> []
   \<and> common samplePager = Some \<lparr>cwd = ''/base/root'', HighPerformancePager = False\<rparr>
   \<and> 0 \<le> Height (viewport samplePager) \<and> Height (viewport samplePager) < 2 ^ 63
   \<and> int (length (splitLines sixLines)) < 2 ^ 63
   \<and> map_sum id (\<lambda>m. YOffset (viewport m))
         (run samplePlatform samplePager [KeyEnter, KeyBackspace, ContentRenderedMsg sixLines])
       = Inr 3
   \<and> (\<exists>m1 m2 m3 c3.
         update samplePlatform samplePager KeyEnter
           = Inr (m1, [LoadLocalMarkdown
                        \<lparr>localPath = ''/base/root/docs/target.md'',
                         Note = ''docs/target.md'', Body = []\<rparr>])
       \<and> update samplePlatform m1 KeyBackspace
           = Inr (m2, [LoadLocalMarkdown
                        \<lparr>localPath = ''/base/root/current.md'',
                         Note = stripAbsolutePath samplePlatform ''/base/root/current.md''
                                  ''/base/root'',
                         Body = []\<rparr>])
       \<and> pendingRestoreYOffset m2 = Some 3
       \<and> update samplePlatform m2 (ContentRenderedMsg sixLines) = Inr (m3, c3)
       \<and> pendingRestoreYOffset m3 = None
       \<and> viewport m3 = \<lparr>Width = 80, Height = 2, YOffset = 3,
                          lines = [''a'', ''b'', ''c'', ''d'', ''e'', ''f'']\<rparr>)"
proof -
  have a: "0 \<le> focusedLink samplePager"
    and b: "focusedLink samplePager < int (length (links samplePager))"
    and c: "ResolvedPath (links samplePager ! nat (focusedLink samplePager)) \<noteq> []"
    and d: "localPath (currentDocument samplePager) \<noteq> []"
    and e: "common samplePager = Some \<lparr>cwd = ''/base/root'', HighPerformancePager = False\<rparr>"
    and f: "0 \<le> Height (viewport samplePager)"
    and g: "Height (viewport samplePager) < 2 ^ 63"
    by (simp_all add: samplePager_def targetLink_def)
  have sl: "splitLines sixLines = [''a'', ''b'', ''c'', ''d'', ''e'', ''f'']"
    by (simp add: sixLines_def)
  have h: "int (length (splitLines sixLines)) < 2 ^ 63"
    by (simp add: sl)
  have v: "links samplePager ! nat (focusedLink samplePager) = targetLink"
    "localPath (currentDocument samplePager) = ''/base/root/current.md''"
    "YOffset (viewport samplePager) = 3"
    by (simp_all add: samplePager_def)
  have w: "(viewport samplePager)\<lparr>lines := splitLines sixLines\<rparr>
             = \<lparr>Width = 80, Height = 2, YOffset = 3,
                lines = [''a'', ''b'', ''c'', ''d'', ''e'', ''f'']\<rparr>"
    by (simp add: sl samplePager_def)
  have pb: "\<not> PastBottom \<lparr>Width = 80, Height = 2, YOffset = 3,
                lines = [''a'', ''b'', ''c'', ''d'', ''e'', ''f'']\<rparr>"
    by (simp add: PastBottom_def maxYOffset_def wrapInt_def)
  from follow_then_back_restores_scroll [OF a b c d e f g h, of samplePlatform]
  have "\<exists>m1 m2 m3 c3.
         update samplePlatform samplePager KeyEnter
           = Inr (m1, [LoadLocalMarkdown
                        \<lparr>localPath = ''/base/root/docs/target.md'',
                         Note = ''docs/target.md'', Body = []\<rparr>])
       \<and> update samplePlatform m1 KeyBackspace
           = Inr (m2, [LoadLocalMarkdown
                        \<lparr>localPath = ''/base/root/current.md'',
                         Note = stripAbsolutePath samplePlatform ''/base/root/current.md''
                                  ''/base/root'',
                         Body = []\<rparr>])
       \<and> pendingRestoreYOffset m2 = Some 3
       \<and> update samplePlatform m2 (ContentRenderedMsg sixLines) = Inr (m3, c3)
       \<and> pendingRestoreYOffset m3 = None
       \<and> viewport m3 = \<lparr>Width = 80, Height = 2, YOffset = 3,
                          lines = [''a'', ''b'', ''c'', ''d'', ''e'', ''f'']\<rparr>"
    unfolding v Let_def w using pb by (simp add: targetLink_def) blast
  with a b c d e f g h sample_run_restores show ?thesis by (intro conjI)
qed

text \<open>
  Claim C8, as stated, fails when the reloaded content is shorter than the saved offset:
  here the offset \<open>3\<close> is pushed, and after going back to a document that now renders as
  one line, the viewport is at offset \<open>0\<close>. It also fails in the viewport of negative
  height: the offset \<open>5\<close> is pushed, and after going back to a document of one line the
  viewport goes to the bottom, where cutting the visible lines panics.
\<close>

theorem follow_then_back_restores_scroll_counterexample:
  "YOffset (viewport samplePager) = 3
   \<and> map_sum id history (run samplePlatform samplePager [KeyEnter])
       = Inr [\<lparr>NavPath = ''/base/root/current.md'', NavYOffset = 3\<rparr>]
   \<and> map_sum id (\<lambda>m. YOffset (viewport m))
         (run samplePlatform samplePager [KeyEnter, KeyBackspace, ContentRenderedMsg ''short''])
       = Inr 0
   \<and> Height (viewport flatPager) = - 1 \<and> YOffset (viewport flatPager) = 5
   \<and> map_sum id history (run samplePlatform flatPager [KeyEnter])
       = Inr [\<lparr>NavPath = ''/base/root/current.md'', NavYOffset = 5\<rparr>]
   \<and> map_sum id (\<lambda>m. YOffset (viewport m))
         (run samplePlatform flatPager [KeyEnter, KeyBackspace, ContentRenderedMsg ''a''])
       = Inl SliceBoundsOutOfRange"
  using sample_run_history sample_run_clamps flat_run_history flat_run_panics
  by (simp add: samplePager_def flatPager_def)

definition emptyPager :: pagerModel where
  "emptyPager = samplePager\<lparr>links := [], focusedLink := - 1\<rparr>"

theorem back_on_empty_history_is_silent_witness:
  "history emptyPager = [] \<and> links emptyPager = []
   \<and> update samplePlatform emptyPager KeyBackspace = Inr (emptyPager, [])
   \<and> update samplePlatform emptyPager KeyTab
       = Inr (emptyPager\<lparr>state := pagerStateStatusMessage,
                statusMessage := ''No followable links''\<rparr>,
              [WaitForStatusMessageTimeout])"
proof -
  have h: "history emptyPager = []" and l: "links emptyPager = []"
    by (simp_all add: emptyPager_def samplePager_def)
  from back_on_empty_history_is_silent [of emptyPager samplePlatform] h l
  show ?thesis by simp
qed

text \<open>
  Claim C9, as stated, fails: with an empty history, back returns the state as it was,
  still browsing, with no command, while the tab key on the same state switches to the
  status message.
\<close>

theorem back_on_empty_history_is_silent_counterexample:
  "history emptyPager = []
   \<and> state emptyPager = pagerStateBrowse
   \<and> update samplePlatform emptyPager KeyBackspace = Inr (emptyPager, [])
   \<and> map_sum id (\<lambda>(m, cs). state m) (update samplePlatform emptyPager KeyBackspace)
       = Inr pagerStateBrowse
   \<and> map_sum id (\<lambda>(m, cs). state m) (update samplePlatform emptyPager KeyTab)
       = Inr pagerStateStatusMessage"
  by (simp add: emptyPager_def samplePager_def update_def showStatusMessage_def)

end
